theory Spec2Isabelle
  imports Complex_Main
begin

section \<open>JavaScript values\<close>

text \<open>
  A JavaScript string is a sequence of UTF-16 code units; \<open>slice\<close>, \<open>split\<close> and the
  regular expressions of the scripts all count code units. A code unit is modelled as
  a natural number, so that the sentinel U+2014 and the white space above U+00FF are
  single elements. \<open>str\<close> turns an ASCII literal into such a sequence.
\<close>

type_synonym jsstring = "nat list"

definition str :: "string \<Rightarrow> jsstring" where
  "str s = map of_char s"

text \<open>
  What \<open>JSON.parse\<close> returns, together with \<open>undefined\<close> (the value of a missing
  property). A number is modelled by its rational value: the scripts only test numbers
  for truthiness. An object is the list of its own properties.
\<close>

datatype json =
    JUndefined
  | JNull
  | JBool bool
  | JNum rat
  | JStr jsstring
  | JArr "json list"
  | JObj "(jsstring \<times> json) list"

text \<open>
  The exceptions of the scripts: a TypeError of the language, the \<open>Error\<close> that
  \<open>patchYaml\<close> throws (\<open>Could not find "tests:" section in YAML\<close>), and the error of
  \<open>readFileSync\<close> on a path without a file.
\<close>

datatype error =
    TypeError
  | NoTestsSection
  | NoSuchFile

fun truthy :: "json \<Rightarrow> bool" where
  "truthy JUndefined = False"
| "truthy JNull = False"
| "truthy (JBool b) = b"
| "truthy (JNum n) = (n \<noteq> 0)"
| "truthy (JStr s) = (s \<noteq> [])"
| "truthy (JArr xs) = True"
| "truthy (JObj kvs) = True"

text \<open>
  \<open>field v k\<close> is the value of \<open>v.k\<close> for a receiver \<open>v\<close> that is neither \<open>null\<close> nor
  \<open>undefined\<close>: the own property of an object, and \<open>undefined\<close> otherwise, also on a
  string, number, boolean or array (none of the property names the scripts read on
  parsed values is a built-in property of those, or of \<open>Object.prototype\<close>). \<open>get_prop\<close>
  adds the TypeError that JavaScript raises on a \<open>null\<close> or \<open>undefined\<close> receiver.
\<close>

fun field :: "json \<Rightarrow> string \<Rightarrow> json" where
  "field (JObj kvs) k = (case map_of kvs (str k) of None \<Rightarrow> JUndefined | Some v \<Rightarrow> v)"
| "field v k = JUndefined"

definition get_prop :: "json \<Rightarrow> string \<Rightarrow> error + json" where
  "get_prop v k = (if v = JNull \<or> v = JUndefined then Inl TypeError else Inr (field v k))"

text \<open>Sequencing: an exception ends the evaluation.\<close>

definition and_then :: "error + 'a \<Rightarrow> ('a \<Rightarrow> error + 'b) \<Rightarrow> error + 'b" where
  "and_then m f = (case m of Inl e \<Rightarrow> Inl e | Inr x \<Rightarrow> f x)"

section \<open>Verdict of a result entry\<close>

text \<open>
  generate-summary.js and extract-failures.js, in the loop over the results:
  \<^verbatim>\<open>r.success === true || r.pass === true || (r.gradingResult && r.gradingResult.pass === true)\<close>
  \<open>success_expr\<close> is the value of that expression (\<open>||\<close> and \<open>&&\<close> return one of their
  operands), \<open>verdict\<close> its truthiness, which is what \<open>if (success)\<close> and \<open>if (pass) return\<close>
  test.
\<close>

definition success_expr :: "json \<Rightarrow> error + json" where
  "success_expr r =
     and_then (get_prop r ''success'') (\<lambda>s.
       if s = JBool True then Inr (JBool True)
       else and_then (get_prop r ''pass'') (\<lambda>p.
         if p = JBool True then Inr (JBool True)
         else and_then (get_prop r ''gradingResult'') (\<lambda>g.
           if truthy g
           then and_then (get_prop g ''pass'') (\<lambda>gp. Inr (JBool (gp = JBool True)))
           else Inr g)))"

definition verdict :: "json \<Rightarrow> error + bool" where
  "verdict r = and_then (success_expr r) (\<lambda>v. Inr (truthy v))"

text \<open>
  The reading of the specification, section 4.3: the three flags in priority order,
  the first one that is present as a boolean decides, and no boolean at all is a fail.
\<close>

definition first_present_boolean :: "json \<Rightarrow> bool" where
  "first_present_boolean r =
     (case field r ''success'' of
        JBool b \<Rightarrow> b
      | _ \<Rightarrow> (case field r ''pass'' of
          JBool b \<Rightarrow> b
        | _ \<Rightarrow> (case field (field r ''gradingResult'') ''pass'' of
            JBool b \<Rightarrow> b
          | _ \<Rightarrow> False)))"

section \<open>Summary: correlation and aggregation\<close>

text \<open>
  generate-summary.js, \<open>main\<close>. A test as \<open>loadYAML\<close> builds it is an object with the
  single property \<open>metadata\<close>, which holds \<open>spec_requirements\<close> (an array of strings) and
  \<open>requirement\<close> (a string).
\<close>

record metadata =
  spec_requirements :: "jsstring list"
  requirement :: jsstring

text \<open>
  An element of \<open>cases\<close>, \<open>{ index, success, requirement }\<close> (the field
  \<open>case_requirement\<close> is its \<open>requirement\<close>), and a value of \<open>bySpec\<close>,
  \<open>{ pass, fail, cases }\<close>. \<open>success\<close> is the value of the success expression as it
  stands.
\<close>

record case_entry =
  index :: nat
  success :: json
  case_requirement :: jsstring

record group =
  pass :: nat
  fail :: nat
  cases :: "case_entry list"

text \<open>
  What the callback of \<open>results.forEach\<close> can reach: the two arrays it reads and the
  object \<open>bySpec\<close> it fills, with its own properties in the order of their creation.
\<close>

record summary_state =
  results :: "json list"
  tests :: "metadata list"
  bySpec :: "(jsstring \<times> group) list"

text \<open>
  \<open>bySpec\<close> is created as \<open>{}\<close>, so \<open>bySpec[specKey]\<close> also finds what
  \<open>Object.prototype\<close> has under these names: a function, or the prototype itself for
  \<open>__proto__\<close>.
\<close>

definition object_prototype_keys :: "jsstring list" where
  "object_prototype_keys = map str
     [''constructor'', ''__proto__'', ''hasOwnProperty'', ''isPrototypeOf'',
      ''propertyIsEnumerable'', ''toLocaleString'', ''toString'', ''valueOf'',
      ''__defineGetter__'', ''__defineSetter__'', ''__lookupGetter__'', ''__lookupSetter__'']"

text \<open>
  \<open>tests[i] || {}\<close>: the test at the index of the result, or an empty object, here
  \<open>None\<close>, when the tests are fewer.
\<close>

definition test_at :: "metadata list \<Rightarrow> nat \<Rightarrow> metadata option" where
  "test_at ts i = (if i < length ts then Some (ts ! i) else None)"

text \<open>
  \<open>specs[0]\<close> for the array \<open>meta.spec_requirements\<close>, as a property key: the first
  element, and the key \<open>undefined\<close> for an empty array. Without a test, \<open>specs\<close> is
  \<open>['unknown']\<close> and \<open>meta.requirement || ''\<close> is the empty string.
\<close>

definition first_spec :: "metadata \<Rightarrow> jsstring" where
  "first_spec m = (case spec_requirements m of [] \<Rightarrow> str ''undefined'' | s # rest \<Rightarrow> s)"

definition specKey_of :: "metadata option \<Rightarrow> jsstring" where
  "specKey_of t = (case t of None \<Rightarrow> str ''unknown'' | Some m \<Rightarrow> first_spec m)"

definition requirement_of :: "metadata option \<Rightarrow> jsstring" where
  "requirement_of t = (case t of None \<Rightarrow> [] | Some m \<Rightarrow> requirement m)"

text \<open>
  \<open>bySpec[specKey].pass++\<close> or \<open>.fail++\<close>, and \<open>.cases.push(...)\<close>, on the group of a
  key.
\<close>

definition update_group :: "jsstring \<Rightarrow> (group \<Rightarrow> group) \<Rightarrow> (jsstring \<times> group) list \<Rightarrow> (jsstring \<times> group) list" where
  "update_group k f b = map (\<lambda>(k', g). if k' = k then (k', f g) else (k', g)) b"

definition count_case :: "nat \<Rightarrow> json \<Rightarrow> jsstring \<Rightarrow> group \<Rightarrow> group" where
  "count_case i s req g =
     (if truthy s then g\<lparr>pass := pass g + 1\<rparr> else g\<lparr>fail := fail g + 1\<rparr>)
       \<lparr>cases := cases g @ [\<lparr>index = i + 1, success = s, case_requirement = req\<rparr>]\<rparr>"

text \<open>
  \<open>if (!bySpec[specKey]) bySpec[specKey] = { pass: 0, fail: 0, cases: [] }\<close>, for a key
  that \<open>Object.prototype\<close> does not have.
\<close>

definition ensure_group :: "jsstring \<Rightarrow> (jsstring \<times> group) list \<Rightarrow> (jsstring \<times> group) list" where
  "ensure_group k b =
     (if map_of b k = None then b @ [(k, \<lparr>pass = 0, fail = 0, cases = []\<rparr>)] else b)"

text \<open>
  The callback of \<open>results.forEach\<close> at index \<open>i\<close>. For a key of \<open>Object.prototype\<close>,
  \<open>bySpec[specKey]\<close> is truthy from the start: no group is created, \<open>.cases\<close> of the
  inherited value is \<open>undefined\<close>, and \<open>.push\<close> raises a TypeError. Otherwise the only
  error is the TypeError of the success expression on a \<open>null\<close> entry.
\<close>

definition summary_step :: "nat \<Rightarrow> summary_state \<Rightarrow> error + summary_state" where
  "summary_step i st =
     (let r = results st ! i;
          t = test_at (tests st) i;
          specKey = specKey_of t;
          b = bySpec st
      in if specKey \<in> set object_prototype_keys then Inl TypeError
         else
           let b1 = ensure_group specKey b
           in and_then (success_expr r) (\<lambda>s.
                Inr (st\<lparr>bySpec := update_group specKey (count_case i s (requirement_of t)) b1\<rparr>)))"

text \<open>
  \<open>results.forEach\<close>: the callback at the indices \<open>i, i + 1, ...\<close>, \<open>n\<close> of them, until
  one raises.
\<close>

fun summary_loop :: "nat \<Rightarrow> nat \<Rightarrow> summary_state \<Rightarrow> error + summary_state" where
  "summary_loop i 0 st = Inr st"
| "summary_loop i (Suc n) st = and_then (summary_step i st) (summary_loop (Suc i) n)"

definition aggregate :: "json list \<Rightarrow> metadata list \<Rightarrow> error + summary_state" where
  "aggregate R T = summary_loop 0 (length R) \<lparr>results = R, tests = T, bySpec = []\<rparr>"

text \<open>
  \<open>Object.values(bySpec).forEach(s => { totalPass += s.pass; totalFail += s.fail; })\<close>
  and \<open>total = totalPass + totalFail\<close>.
\<close>

definition totalPass :: "summary_state \<Rightarrow> nat" where
  "totalPass st = sum_list (map (\<lambda>(k, g). pass g) (bySpec st))"

definition totalFail :: "summary_state \<Rightarrow> nat" where
  "totalFail st = sum_list (map (\<lambda>(k, g). fail g) (bySpec st))"

definition total :: "summary_state \<Rightarrow> nat" where
  "total st = totalPass st + totalFail st"

section \<open>Numbers: rounding to a double\<close>

text \<open>
  generate-summary.js computes the pass rates with the division and multiplication of
  JavaScript numbers, which round the exact result to the nearest IEEE 754 double, ties
  to the even significand. The counts are exact as doubles; \<open>fl\<close> is that rounding on
  the rationals, for results in the normal range of doubles (no overflow and no
  subnormal numbers, which the quotient of two counts below \<open>2^53\<close> and its product with
  100 never reach).
\<close>

definition round_even :: "rat \<Rightarrow> int" where
  "round_even x =
     (let f = \<lfloor>x\<rfloor>; d = x - of_int f
      in if d < 1 / 2 then f else if 1 / 2 < d then f + 1 else if even f then f else f + 1)"

text \<open>
  The binary exponent of a positive rational \<open>x\<close>, the integer \<open>e\<close> with
  \<open>2^e \<le> x < 2^(e+1)\<close>: the number of halvings that bring \<open>x \<ge> 1\<close> below 2, or minus the
  number of doublings that bring \<open>x < 1\<close> up to 1.
\<close>

function halvings :: "rat \<Rightarrow> nat" where
  "halvings x = (if x < 2 then 0 else Suc (halvings (x / 2)))"
  by pat_completeness auto
termination
proof (relation "measure (\<lambda>x. nat \<lfloor>x\<rfloor>)")
  show "wf (measure (\<lambda>x. nat \<lfloor>x\<rfloor>))" by simp
next
  fix x :: rat
  assume "\<not> x < 2"
  then have "x / 2 \<le> x - 1" by simp
  then have "\<lfloor>x / 2\<rfloor> \<le> \<lfloor>x - 1\<rfloor>" by (rule floor_mono)
  moreover have "2 \<le> \<lfloor>x\<rfloor>" using \<open>\<not> x < 2\<close> by (simp add: le_floor_iff)
  ultimately show "(x / 2, x) \<in> measure (\<lambda>x. nat \<lfloor>x\<rfloor>)" by simp
qed

function doublings :: "rat \<Rightarrow> nat" where
  "doublings x = (if x \<le> 0 \<or> 1 \<le> x then 0 else Suc (doublings (2 * x)))"
  by pat_completeness auto
termination
proof (relation "measure (\<lambda>x. nat \<lceil>1 / x\<rceil>)")
  show "wf (measure (\<lambda>x. nat \<lceil>1 / x\<rceil>))" by simp
next
  fix x :: rat
  assume "\<not> (x \<le> 0 \<or> 1 \<le> x)"
  then have x: "0 < x" "x < 1" by auto
  then have "1 < 1 / x" by simp
  then have c: "2 \<le> \<lceil>1 / x\<rceil>" by (simp add: le_ceiling_iff)
  have "1 / (2 * x) = (1 / x) / 2" by simp
  also have "\<dots> \<le> of_int \<lceil>1 / x\<rceil> / 2" by (simp add: le_of_int_ceiling divide_right_mono)
  also have "\<dots> \<le> of_int (\<lceil>1 / x\<rceil> - 1)" using c by (simp add: field_simps)
  finally have "\<lceil>1 / (2 * x)\<rceil> \<le> \<lceil>1 / x\<rceil> - 1" by (rule ceiling_le)
  with c have "nat \<lceil>1 / (2 * x)\<rceil> < nat \<lceil>1 / x\<rceil>" by arith
  then show "(2 * x, x) \<in> measure (\<lambda>x. nat \<lceil>1 / x\<rceil>)"
    unfolding in_measure .
qed

declare halvings.simps [simp del] doublings.simps [simp del]

definition ilog2 :: "rat \<Rightarrow> int" where
  "ilog2 x = (if 1 \<le> x then int (halvings x) else - int (doublings x))"

text \<open>
  Rounding to 53 significant bits: the nearest multiple of \<open>2^(e-52)\<close>, ties to even.
\<close>

definition fl :: "rat \<Rightarrow> rat" where
  "fl x = (if x = 0 then 0
           else let u = 2 powi (ilog2 \<bar>x\<bar> - 52) in u * of_int (round_even (x / u)))"

section \<open>Recommendations\<close>

text \<open>
  \<open>total ? (totalPass / total) * 100 : 0\<close>, and the same expression for one group,
  \<open>s.pass + s.fail > 0 ? (s.pass / (s.pass + s.fail)) * 100 : 0\<close>.
\<close>

definition percentage :: "nat \<Rightarrow> nat \<Rightarrow> rat" where
  "percentage n d = (if d \<noteq> 0 then fl (fl (of_nat n / of_nat d) * 100) else 0)"

text \<open>
  The lines that \<open>getRecommendations\<close> pushes; each constructor stands for one literal of
  the source (\<open>Run `specalign generate` ...\<close>, \<open>**Low pass rate**\<close>,
  \<open>**Moderate pass rate**\<close>, \<open>**Good baseline**\<close>, \<open>**Specs with <50% pass**\<close> with the
  names it lists, \<open>Download the **promptfoo-results** artifact\<close>, \<open>To improve results\<close>).
\<close>

datatype recommendation =
    RunGenerate
  | LowPassRate
  | ModeratePassRate
  | GoodBaseline
  | WeakSpecs "jsstring list"
  | DownloadArtifact
  | ImproveResults

text \<open>
  \<open>Object.entries(bySpec)\<close>: the keys that are array indices (canonical decimal numbers
  below \<open>2^32 - 1\<close>) come first, in ascending numeric order, then the other keys in the
  order in which they were created.
\<close>

definition is_digit :: "nat \<Rightarrow> bool" where
  "is_digit c = (48 \<le> c \<and> c \<le> 57)"

definition decimal :: "jsstring \<Rightarrow> nat" where
  "decimal k = foldl (\<lambda>n c. 10 * n + (c - 48)) 0 k"

definition is_array_index :: "jsstring \<Rightarrow> bool" where
  "is_array_index k =
     (k \<noteq> [] \<and> list_all is_digit k \<and> (k = [48] \<or> hd k \<noteq> 48) \<and> decimal k < 2 ^ 32 - 1)"

definition js_entries :: "(jsstring \<times> 'a) list \<Rightarrow> (jsstring \<times> 'a) list" where
  "js_entries b =
     sort_key (\<lambda>(k, v). decimal k) (filter (\<lambda>(k, v). is_array_index k) b)
     @ filter (\<lambda>(k, v). \<not> is_array_index k) b"

text \<open>
  \<open>getRecommendations(bySpec, totalPass, totalFail, total)\<close>. Its parameters carry a
  prime here, their names being those of the variables of \<open>main\<close> as well. The counts
  are natural numbers, so that the rate is never \<open>NaN\<close>.
\<close>

definition getRecommendations ::
  "(jsstring \<times> group) list \<Rightarrow> nat \<Rightarrow> nat \<Rightarrow> nat \<Rightarrow> recommendation list" where
  "getRecommendations bySpec' totalPass' totalFail' total' =
     (let passRate = percentage totalPass' total'
      in if total' = 0 then [RunGenerate]
         else
           (if passRate < 40 then [LowPassRate]
            else if passRate < 70 then [ModeratePassRate]
            else if 70 \<le> passRate then [GoodBaseline]
            else [])
           @ (let weakSpecs =
                    filter (\<lambda>(spec, rate). rate < 50 \<and> 0 \<le> rate)
                      (map (\<lambda>(spec, s). (spec, percentage (pass s) (pass s + fail s)))
                         (js_entries bySpec'))
              in if weakSpecs \<noteq> [] then [WeakSpecs (map fst weakSpecs)] else [])
           @ [DownloadArtifact, ImproveResults])"

text \<open>
  The overall pass rate of the specification, section 4.4, in percent and as an exact
  number: \<open>totalPass / (totalPass + totalFail)\<close>, zero when no entries exist.
\<close>

definition exact_percentage :: "nat \<Rightarrow> nat \<Rightarrow> rat" where
  "exact_percentage n d = (if d = 0 then 0 else of_nat n / of_nat d * 100)"

section \<open>Failure extraction\<close>

text \<open>
  extract-failures.js. \<open>a || b\<close> and \<open>a && b\<close> return one of their operands. The
  second operand is always a total expression here (a property of a truthy receiver or
  a literal), so both are modelled on values.
\<close>

definition js_or :: "json \<Rightarrow> json \<Rightarrow> json" where
  "js_or a b = (if truthy a then a else b)"

definition js_and :: "json \<Rightarrow> json \<Rightarrow> json" where
  "js_and a b = (if truthy a then b else a)"

text \<open>
  \<open>componentResults.find(c => c.pass === false)\<close>: the first element whose \<open>pass\<close> is
  the boolean \<open>false\<close>, \<open>undefined\<close> when there is none. The callback raises a TypeError
  on a \<open>null\<close> element it reaches, and a truthy value that is not an array has no
  \<open>find\<close> method.
\<close>

fun find_failed :: "json list \<Rightarrow> error + json" where
  "find_failed [] = Inr JUndefined"
| "find_failed (c # cs) =
     and_then (get_prop c ''pass'') (\<lambda>p. if p = JBool False then Inr c else find_failed cs)"

definition array_find_failed :: "json \<Rightarrow> error + json" where
  "array_find_failed v = (case v of JArr cs \<Rightarrow> find_failed cs | _ \<Rightarrow> Inl TypeError)"

text \<open>
  \<open>reason.slice(0, n)\<close>, for a \<open>reason\<close> that is a string or, being taken from the
  results as it stands, any other truthy value: strings and arrays have \<open>slice\<close>,
  numbers, booleans and objects parsed from JSON do not.
\<close>

definition js_slice :: "nat \<Rightarrow> json \<Rightarrow> error + json" where
  "js_slice n v =
     (case v of JStr s \<Rightarrow> Inr (JStr (take n s))
              | JArr xs \<Rightarrow> Inr (JArr (take n xs))
              | _ \<Rightarrow> Inl TypeError)"

text \<open>
  \<open>String(v)\<close> is \<open>v\<close> itself for a string. The conversion of any other value is
  JavaScript's ToString (number formatting, array joining, \<open>toString\<close> lookup on
  objects); it is a parameter of the model, \<open>to_string\<close>.
\<close>

definition js_String :: "(json \<Rightarrow> error + jsstring) \<Rightarrow> json \<Rightarrow> error + jsstring" where
  "js_String to_string v = (case v of JStr s \<Rightarrow> Inr s | _ \<Rightarrow> to_string v)"

text \<open>
  The record pushed for a failing entry. Its \<open>input\<close> and \<open>output\<close> properties are the
  fields \<open>inputSnippet\<close> and \<open>outputSnippet\<close> (the names of the specification).
\<close>

record failure =
  testIndex :: nat
  inputSnippet :: jsstring
  outputSnippet :: jsstring
  failingAssertion :: json
  reason :: json

text \<open>The code unit U+2014 (em dash), the text of the sentinel.\<close>

definition sentinel :: jsstring where
  "sentinel = [8212]"

text \<open>
  The values of \<open>failingAssertion\<close> and \<open>reason\<close> after the first \<open>if\<close> of the loop body,
  for the grading result \<open>g\<close> of the entry.
\<close>

definition first_failure :: "json \<Rightarrow> error + json \<times> json" where
  "first_failure g =
     (if truthy (js_and g (field g ''componentResults''))
      then and_then (array_find_failed (field g ''componentResults'')) (\<lambda>failed.
        if truthy failed
        then Inr (js_and (field failed ''assertion'') (field (field failed ''assertion'') ''value''),
                  js_or (field failed ''reason'') (JStr []))
        else Inr (JNull, JStr []))
      else Inr (JNull, JStr []))"

definition entry_input :: "(json \<Rightarrow> error + jsstring) \<Rightarrow> json \<Rightarrow> error + jsstring" where
  "entry_input to_string r =
     (if truthy (js_and (js_and (field r ''testCase'') (field (field r ''testCase'') ''vars''))
                   (field (field (field r ''testCase'') ''vars'') ''input''))
      then js_String to_string (field (field (field r ''testCase'') ''vars'') ''input'')
      else Inr [])"

definition entry_output :: "(json \<Rightarrow> error + jsstring) \<Rightarrow> json \<Rightarrow> error + jsstring" where
  "entry_output to_string r =
     (if truthy (js_and (field r ''response'') (field (field r ''response'') ''output''))
      then js_String to_string (field (field r ''response'') ''output'')
      else Inr [])"

text \<open>
  The value of \<open>reason\<close> after the second \<open>if\<close>:
  \<^verbatim>\<open>if (!failingAssertion && r.gradingResult) reason = r.gradingResult.reason || '';\<close>
\<close>

definition final_reason :: "json \<Rightarrow> json \<Rightarrow> json \<Rightarrow> json" where
  "final_reason g fa reason1 =
     (if truthy (js_and (JBool (\<not> truthy fa)) g) then js_or (field g ''reason'') (JStr [])
      else reason1)"

text \<open>
  One pass of the loop body: \<open>None\<close> for an entry that passes (\<open>if (pass) return\<close>),
  the record pushed otherwise.
\<close>

definition extract_failure :: "(json \<Rightarrow> error + jsstring) \<Rightarrow> nat \<Rightarrow> json \<Rightarrow> error + failure option" where
  "extract_failure to_string i r =
     and_then (verdict r) (\<lambda>pass.
       if pass then Inr None
       else and_then (first_failure (field r ''gradingResult'')) (\<lambda>(fa, reason1).
         let reason = final_reason (field r ''gradingResult'') fa reason1
         in and_then (entry_input to_string r) (\<lambda>inp.
              and_then (entry_output to_string r) (\<lambda>out.
                and_then (js_slice 300 reason) (\<lambda>sliced.
                  Inr (Some \<lparr>testIndex = i + 1,
                             inputSnippet = take 500 inp,
                             outputSnippet = take 800 out,
                             failingAssertion = js_or (js_or fa reason) (JStr sentinel),
                             reason = sliced\<rparr>))))))"

fun extract_from :: "(json \<Rightarrow> error + jsstring) \<Rightarrow> nat \<Rightarrow> json list \<Rightarrow> error + failure list" where
  "extract_from to_string i [] = Inr []"
| "extract_from to_string i (r # rs) =
     and_then (extract_failure to_string i r) (\<lambda>f.
       and_then (extract_from to_string (Suc i) rs) (\<lambda>fs.
         Inr (case f of None \<Rightarrow> fs | Some x \<Rightarrow> x # fs)))"

definition extract_failures :: "(json \<Rightarrow> error + jsstring) \<Rightarrow> json list \<Rightarrow> error + failure list" where
  "extract_failures to_string R = extract_from to_string 0 R"

text \<open>
  The vocabulary of the specification, section 4.5, on an entry: its sub-assertions
  (the \<open>componentResults\<close> array of its grading result, empty when there is none), the
  first one with \<open>passed = false\<close>, the assertion text of a sub-assertion, and the
  top-level reason.
\<close>

definition sub_assertions :: "json \<Rightarrow> json list" where
  "sub_assertions r =
     (case field (field r ''gradingResult'') ''componentResults'' of JArr cs \<Rightarrow> cs | _ \<Rightarrow> [])"

definition first_failed :: "json \<Rightarrow> json option" where
  "first_failed r = find (\<lambda>c. field c ''pass'' = JBool False) (sub_assertions r)"

definition assertionText :: "json \<Rightarrow> json" where
  "assertionText c = field (field c ''assertion'') ''value''"

definition top_reason :: "json \<Rightarrow> json" where
  "top_reason r = field (field r ''gradingResult'') ''reason''"

text \<open>
  The failing-assertion text as section 4.5 words it: with a non-empty sub-assertion
  list it is the assertion text of the first sub-assertion that did not pass (nothing
  is said when all passed), with an empty list the top-level reason, or the sentinel
  when that is absent.
\<close>

definition claimed_failing_assertion :: "json \<Rightarrow> json option" where
  "claimed_failing_assertion r =
     (if sub_assertions r \<noteq> [] then map_option assertionText (first_failed r)
      else Some (js_or (top_reason r) (JStr sentinel)))"

text \<open>
  The reason whose first 300 code units become the record's \<open>reason\<close>: the reason of the
  first failed sub-assertion when that one has an assertion text, the top-level reason
  otherwise, and the empty string when the chosen one is absent.
\<close>

definition reason_source :: "json \<Rightarrow> json" where
  "reason_source r =
     (case first_failed r of
        Some c \<Rightarrow> if truthy (assertionText c) then js_or (field c ''reason'') (JStr [])
                   else js_or (top_reason r) (JStr [])
      | None \<Rightarrow> js_or (top_reason r) (JStr []))"

text \<open>
  A conversion for examples in which \<open>String\<close> is applied to strings only, so that it
  is never called.
\<close>

definition no_to_string :: "json \<Rightarrow> error + jsstring" where
  "no_to_string v = Inl TypeError"

section \<open>Strings and the patterns of the scripts\<close>

definition nl :: nat where
  "nl = 10"

text \<open>
  The class \<open>\s\<close> of a JavaScript regular expression, which is also what \<open>trim\<close>
  removes: tab, line feed, vertical tab, form feed, carriage return, space, U+00A0,
  U+1680, U+2000 to U+200A, U+2028, U+2029, U+202F, U+205F, U+3000 and U+FEFF.
\<close>

definition is_ws :: "nat \<Rightarrow> bool" where
  "is_ws c = (c \<in> set [9, 10, 11, 12, 13, 32, 160, 5760, 8232, 8233, 8239, 8287, 12288, 65279]
              \<or> (8192 \<le> c \<and> c \<le> 8202))"

text \<open>The code units that \<open>.\<close> does not match: the line terminators.\<close>

definition is_line_terminator :: "nat \<Rightarrow> bool" where
  "is_line_terminator c = (c \<in> set [10, 13, 8232, 8233])"

definition starts_with :: "jsstring \<Rightarrow> jsstring \<Rightarrow> bool" where
  "starts_with p s = (take (length p) s = p)"

text \<open>\<open>s.includes(p)\<close>.\<close>

fun js_includes :: "jsstring \<Rightarrow> jsstring \<Rightarrow> bool" where
  "js_includes p [] = (p = [])"
| "js_includes p (c # cs) = (starts_with p (c # cs) \<or> js_includes p cs)"

text \<open>\<open>blocks.join('\n')\<close>.\<close>

fun join_nl :: "jsstring list \<Rightarrow> jsstring" where
  "join_nl [] = []"
| "join_nl [b] = b"
| "join_nl (b # bs) = b @ nl # join_nl bs"

section \<open>Document Segmenter\<close>

text \<open>
  The lookahead \<open>(?=-\s+vars:)\<close> at the start of \<open>s\<close>: a dash, one or more white-space
  code units, and the text \<open>vars:\<close>. Since \<open>v\<close> is not white space, \<open>\s+\<close> can only stand
  for the whole run of white space after the dash.
\<close>

definition marker_at :: "jsstring \<Rightarrow> bool" where
  "marker_at s =
     (case s of
        [] \<Rightarrow> False
      | c # rest \<Rightarrow> c = 45 \<and> takeWhile is_ws rest \<noteq> []
                   \<and> starts_with (str ''vars:'') (dropWhile is_ws rest))"

text \<open>
  \<open>s.split(/\n(?=-\s+vars:)/)\<close>: the text is cut at every line feed that is directly
  followed by the marker, and the line feed is dropped. The result is never empty.
\<close>

fun split_blocks :: "jsstring \<Rightarrow> jsstring list" where
  "split_blocks [] = [[]]"
| "split_blocks (c # cs) =
     (if c = nl \<and> marker_at cs then [] # split_blocks cs
      else (case split_blocks cs of [] \<Rightarrow> [[c]] | b # bs \<Rightarrow> (c # b) # bs))"

text \<open>
  The segmenter of \<open>loadYAML\<close> in generate-summary.js:
  \<^verbatim>\<open>raw.split(/\n(?=-\s+vars:)/).filter(b => b.includes('vars:'))\<close>
\<close>

definition testBlocks :: "jsstring \<Rightarrow> jsstring list" where
  "testBlocks raw = filter (js_includes (str ''vars:'')) (split_blocks raw)"

text \<open>
  The number of record markers of a document, in the words of the specification: the
  places at the start of a line (the start of the document, or just after a line feed)
  where a dash-prefixed \<open>vars\<close> key stands.
\<close>

fun markers_after_newline :: "jsstring \<Rightarrow> nat" where
  "markers_after_newline [] = 0"
| "markers_after_newline (c # cs) =
     (if c = nl \<and> marker_at cs then 1 else 0) + markers_after_newline cs"

definition record_markers :: "jsstring \<Rightarrow> nat" where
  "record_markers D = (if marker_at D then 1 else 0) + markers_after_newline D"

section \<open>Refinement Patcher\<close>

text \<open>
  refine-assertions.js. \<open>trim\<close>, and the global replacement of \<open>/\s+/\<close> by one space.
\<close>

definition trim :: "jsstring \<Rightarrow> jsstring" where
  "trim s = rev (dropWhile is_ws (rev (dropWhile is_ws s)))"

function collapse_ws :: "jsstring \<Rightarrow> jsstring" where
  "collapse_ws [] = []"
| "collapse_ws (c # cs) =
     (if is_ws c then 32 # collapse_ws (dropWhile is_ws cs) else c # collapse_ws cs)"
  by pat_completeness auto
termination
  by (relation "measure length") (auto simp: le_imp_less_Suc length_dropWhile_le)

text \<open>
  \<open>norm(s)\<close> is \<open>(s || '').replace(/\s+/g, ' ').trim()\<close>. It is applied to the text of a
  line (\<open>norm_str\<close>) and to the \<open>failingAssertion\<close> of a failure record as parsed
  (\<open>norm_json\<close>): a falsy value stands for the empty string, and a truthy value that is
  not a string has no \<open>replace\<close> method.
\<close>

definition norm_str :: "jsstring \<Rightarrow> jsstring" where
  "norm_str s = trim (collapse_ws s)"

definition norm_json :: "json \<Rightarrow> error + jsstring" where
  "norm_json v = (case js_or v (JStr []) of JStr s \<Rightarrow> Inr (norm_str s) | _ \<Rightarrow> Inl TypeError)"

text \<open>
  \<open>unescapeYamlValue\<close>: \<open>str.trim().replace(/^['"]|['"]$/g, '').replace(/''/g, "'")\<close>.
  The first replacement removes a quote at the start and, from what is left, a quote at
  the end; the second halves every pair of single quotes, left to right.
\<close>

definition is_quote :: "nat \<Rightarrow> bool" where
  "is_quote c = (c = 39 \<or> c = 34)"

definition strip_quotes :: "jsstring \<Rightarrow> jsstring" where
  "strip_quotes s =
     (let s1 = (case s of [] \<Rightarrow> [] | c # cs \<Rightarrow> if is_quote c then cs else s)
      in if s1 \<noteq> [] \<and> is_quote (last s1) then butlast s1 else s1)"

fun undouble :: "jsstring \<Rightarrow> jsstring" where
  "undouble (a # b # cs) =
     (if a = 39 \<and> b = 39 then 39 # undouble cs else a # undouble (b # cs))"
| "undouble cs = cs"

definition unescapeYamlValue :: "jsstring \<Rightarrow> jsstring" where
  "unescapeYamlValue s = (if s = [] then [] else undouble (strip_quotes (trim s)))"

text \<open>\<open>escapeForYaml\<close>: \<open>"'" + String(str).replace(/'/g, "''") + "'"\<close>.\<close>

definition escapeForYaml :: "jsstring \<Rightarrow> jsstring" where
  "escapeForYaml s = 39 # concat (map (\<lambda>c. if c = 39 then [39, 39] else [c]) s) @ [39]"

text \<open>
  \<open>yaml.match(/([\s\S]*?\n)tests:\n([\s\S]*)/)\<close>: the two groups of the match, which
  starts at the beginning of the text (\<open>[\s\S]*?\<close> matches anything) and ends the first
  group at the first line feed that is followed by \<open>tests:\<close> and a line feed.
\<close>

fun find_tests :: "jsstring \<Rightarrow> (jsstring \<times> jsstring) option" where
  "find_tests [] = None"
| "find_tests (c # cs) =
     (if c = nl \<and> starts_with (str ''tests:\<newline>'') cs then Some ([c], drop 7 cs)
      else map_option (\<lambda>(h, b). (c # h, b)) (find_tests cs))"

text \<open>\<open>block.split('\n')\<close>.\<close>

fun split_lines :: "jsstring \<Rightarrow> jsstring list" where
  "split_lines [] = [[]]"
| "split_lines (c # cs) =
     (if c = nl then [] # split_lines cs
      else (case split_lines cs of [] \<Rightarrow> [[c]] | l # ls \<Rightarrow> (c # l) # ls))"

text \<open>
  \<open>lines[i].match(/^(\s*value:\s*)(.+)$/)\<close>: the two groups. The first \<open>\s*\<close> is the
  white space the line starts with. After \<open>value:\<close>, the second \<open>\s*\<close> takes the whole
  run of white space when something follows it, and \<open>(.+)\<close> is then the rest of the
  line, which must hold no line terminator; when nothing follows, \<open>\s*\<close> gives its last
  code unit back to \<open>(.+)\<close>.
\<close>

definition value_match :: "jsstring \<Rightarrow> (jsstring \<times> jsstring) option" where
  "value_match line =
     (let ws1 = takeWhile is_ws line; r1 = dropWhile is_ws line
      in if starts_with (str ''value:'') r1
         then
           let ws2 = takeWhile is_ws (drop 6 r1); rest = dropWhile is_ws (drop 6 r1)
           in if rest \<noteq> []
              then (if list_all (\<lambda>c. \<not> is_line_terminator c) rest
                    then Some (ws1 @ str ''value:'' @ ws2, rest) else None)
              else (if ws2 \<noteq> [] \<and> \<not> is_line_terminator (last ws2)
                    then Some (ws1 @ str ''value:'' @ butlast ws2, [last ws2]) else None)
         else None)"

text \<open>
  A refinement as the response schema of \<open>callOpenAI\<close> declares it: an integer
  \<open>testIndex\<close> (the field \<open>ref_testIndex\<close>) and a string \<open>refinedAssertion\<close>.
\<close>

record refinement =
  ref_testIndex :: int
  refinedAssertion :: jsstring

text \<open>
  \<open>refinements.forEach(r => { refinementsByIndex[r.testIndex] = r.refinedAssertion; })\<close>:
  a later refinement of the same index replaces an earlier one.
\<close>

fun refinements_into ::
  "(int \<Rightarrow> jsstring option) \<Rightarrow> refinement list \<Rightarrow> int \<Rightarrow> jsstring option" where
  "refinements_into m [] = m"
| "refinements_into m (r # rs) = refinements_into (m(ref_testIndex r \<mapsto> refinedAssertion r)) rs"

definition refinementsByIndex :: "refinement list \<Rightarrow> int \<Rightarrow> jsstring option" where
  "refinementsByIndex rs = refinements_into Map.empty rs"

text \<open>
  Whether a line is a value line whose value, unescaped and normalised, is \<open>failNorm\<close>.
\<close>

definition line_matches :: "jsstring \<Rightarrow> jsstring \<Rightarrow> bool" where
  "line_matches failNorm line =
     (case value_match line of
        None \<Rightarrow> False
      | Some (m1, m2) \<Rightarrow> norm_str (unescapeYamlValue (trim m2)) = failNorm)"

text \<open>
  The \<open>for\<close> loop over the lines of a block: the first line that matches is replaced by
  its first group and the escaped refinement, and the loop ends (\<open>break\<close>).
\<close>

fun patch_lines :: "jsstring \<Rightarrow> jsstring \<Rightarrow> jsstring list \<Rightarrow> jsstring list" where
  "patch_lines failNorm refined [] = []"
| "patch_lines failNorm refined (l # ls) =
     (case value_match l of
        None \<Rightarrow> l # patch_lines failNorm refined ls
      | Some (m1, m2) \<Rightarrow>
          if norm_str (unescapeYamlValue (trim m2)) \<noteq> failNorm
          then l # patch_lines failNorm refined ls
          else (m1 @ escapeForYaml refined) # ls)"

text \<open>
  The body of \<open>failures.forEach\<close>, on the array \<open>testBlocks\<close>. A failure without a
  refinement, with an empty one (\<open>!refined\<close>), or whose index has no block, changes
  nothing.
\<close>

definition patch_failure ::
  "(int \<Rightarrow> jsstring option) \<Rightarrow> failure \<Rightarrow> jsstring list \<Rightarrow> error + jsstring list" where
  "patch_failure byIndex f blocks =
     (case byIndex (int (testIndex f)) of
        None \<Rightarrow> Inr blocks
      | Some refined \<Rightarrow>
          if refined = [] then Inr blocks
          else if testIndex f = 0 \<or> length blocks \<le> testIndex f - 1 then Inr blocks
          else and_then (norm_json (failingAssertion f)) (\<lambda>failNorm.
            Inr (blocks[testIndex f - 1 :=
                   join_nl (patch_lines failNorm refined
                              (split_lines (blocks ! (testIndex f - 1))))])))"

fun patch_all ::
  "(int \<Rightarrow> jsstring option) \<Rightarrow> failure list \<Rightarrow> jsstring list \<Rightarrow> error + jsstring list" where
  "patch_all byIndex [] blocks = Inr blocks"
| "patch_all byIndex (f # fs) blocks =
     and_then (patch_failure byIndex f blocks) (patch_all byIndex fs)"

text \<open>
  The text that \<open>patchYaml\<close> hands to \<open>writeFileSync\<close> for the text \<open>yaml\<close> it has
  read, or the error it throws before writing.
\<close>

definition patched_text :: "jsstring \<Rightarrow> failure list \<Rightarrow> refinement list \<Rightarrow> error + jsstring" where
  "patched_text yaml failures refinements =
     (case find_tests yaml of
        None \<Rightarrow> Inl NoTestsSection
      | Some (m1, m2) \<Rightarrow>
          let header = m1 @ str ''tests:\<newline>'';
              body = m2
          in and_then (patch_all (refinementsByIndex refinements) failures (split_blocks body))
               (\<lambda>blocks. Inr (header @ join_nl blocks)))"

text \<open>
  \<open>patchYaml(yamlPath, failures, refinements, outputPath)\<close> on the files, a map from
  paths to texts: the error thrown, if any, and the files afterwards. \<open>readFileSync\<close>
  throws when there is no file at \<open>yamlPath\<close>; \<open>writeFileSync\<close> is the last statement.
  A file is taken as the text that reading it as UTF-8 gives, which stands for its
  bytes when these are valid UTF-8.
\<close>

definition patchYaml ::
  "(jsstring \<Rightarrow> jsstring option) \<Rightarrow> jsstring \<Rightarrow> failure list \<Rightarrow> refinement list \<Rightarrow> jsstring
     \<Rightarrow> error option \<times> (jsstring \<Rightarrow> jsstring option)" where
  "patchYaml files yamlPath failures refinements outputPath =
     (case files yamlPath of
        None \<Rightarrow> (Some NoSuchFile, files)
      | Some yaml \<Rightarrow>
          (case patched_text yaml failures refinements of
             Inl e \<Rightarrow> (Some e, files)
           | Inr newYaml \<Rightarrow> (None, files(outputPath \<mapsto> newYaml))))"

text \<open>
  Whether a document has a line that consists of \<open>tests:\<close> and comes after a line feed:
  \<open>tests:\<close> stands right after a line feed and is followed by a line feed or by the end
  of the document.
\<close>

fun has_tests_line :: "jsstring \<Rightarrow> bool" where
  "has_tests_line [] = False"
| "has_tests_line (c # cs) =
     ((c = nl \<and> starts_with (str ''tests:'') cs \<and> (drop 6 cs = [] \<or> hd (drop 6 cs) = nl))
      \<or> has_tests_line cs)"

section \<open>Evaluating literals\<close>

lemma str_simps: "str [] = []" "str (c # cs) = of_char c # str cs"
  by (simp_all add: str_def)

section \<open>Properties of the verdict\<close>

lemma truthy_not_nullish: "truthy g \<Longrightarrow> g \<noteq> JNull \<and> g \<noteq> JUndefined"
  by (cases g) simp_all

lemma verdict_object:
  assumes "r \<noteq> JNull" and "r \<noteq> JUndefined"
  shows "verdict r = Inr (field r ''success'' = JBool True
                        \<or> field r ''pass'' = JBool True
                        \<or> field (field r ''gradingResult'') ''pass'' = JBool True)"
proof -
  let ?g = "field r ''gradingResult''"
  have nested: "\<not> truthy ?g \<Longrightarrow> field ?g ''pass'' \<noteq> JBool True"
    by (cases ?g) simp_all
  show ?thesis
    using assms nested truthy_not_nullish [of ?g]
    by (auto simp: verdict_def success_expr_def and_then_def get_prop_def)
qed

lemma verdict_nullish: "r = JNull \<or> r = JUndefined \<Longrightarrow> verdict r = Inl TypeError"
  by (auto simp: verdict_def success_expr_def and_then_def get_prop_def)

text \<open>
  C3, as amended. The specification says that the first flag present as a boolean
  decides. The expression is a disjunction of three tests for the value \<open>true\<close>: for
  an entry that is not \<open>null\<close>, the verdict is pass exactly when the success flag, the
  pass flag or the nested grading-result pass flag is the boolean \<open>true\<close>, the three
  being consulted in that order; a flag that is present and \<open>false\<close> decides nothing,
  the later flags are still consulted. The verdict is the one of "first present boolean
  wins" whenever neither the success flag nor the pass flag is \<open>false\<close>, and it is fail
  when none of the three flags is present.
\<close>

theorem verdict_first_true_flag:
  assumes "r \<noteq> JNull" and "r \<noteq> JUndefined"
  shows "verdict r = Inr (field r ''success'' = JBool True
                        \<or> field r ''pass'' = JBool True
                        \<or> field (field r ''gradingResult'') ''pass'' = JBool True)
       \<and> (field r ''success'' \<noteq> JBool False \<and> field r ''pass'' \<noteq> JBool False
             \<longrightarrow> verdict r = Inr (first_present_boolean r))
       \<and> (field r ''success'' = JUndefined \<and> field r ''pass'' = JUndefined
             \<and> field (field r ''gradingResult'') ''pass'' = JUndefined
             \<longrightarrow> verdict r = Inr False)"
proof -
  note v = verdict_object [OF assms]
  have agree: "first_present_boolean r
      = (field r ''success'' = JBool True \<or> field r ''pass'' = JBool True
          \<or> field (field r ''gradingResult'') ''pass'' = JBool True)"
    if "field r ''success'' \<noteq> JBool False" and "field r ''pass'' \<noteq> JBool False"
    using that by (auto simp: first_present_boolean_def split: json.splits)
  show ?thesis
    using v agree by auto
qed

theorem verdict_first_true_flag_witness:
  "verdict (JObj [(str ''gradingResult'', JObj [(str ''pass'', JBool True)])]) = Inr True
   \<and> verdict (JObj []) = Inr False"
  using verdict_first_true_flag [of "JObj [(str ''gradingResult'', JObj [(str ''pass'', JBool True)])]"]
    verdict_first_true_flag [of "JObj []"]
  by (simp add: str_simps)

theorem first_present_false_counterexample:
  "verdict (JObj [(str ''success'', JBool False), (str ''pass'', JBool True)]) = Inr True
   \<and> first_present_boolean (JObj [(str ''success'', JBool False), (str ''pass'', JBool True)]) = False"
  by (simp add: verdict_def success_expr_def and_then_def get_prop_def first_present_boolean_def
      str_simps)

text \<open>
  C9. The verdict is pass only when one of the three flags is exactly the boolean
  \<open>true\<close>; with any other values there (the number 1, the string "true", a missing
  flag) the entry counts as a fail. A \<open>null\<close> entry has no verdict: reading its flag
  raises a TypeError.
\<close>

theorem strict_boolean_pass_signals:
  "(verdict r = Inr True \<longleftrightarrow>
      r \<noteq> JNull \<and> r \<noteq> JUndefined
      \<and> (field r ''success'' = JBool True \<or> field r ''pass'' = JBool True
           \<or> field (field r ''gradingResult'') ''pass'' = JBool True))
   \<and> (verdict r = Inr False \<longleftrightarrow>
      r \<noteq> JNull \<and> r \<noteq> JUndefined
      \<and> field r ''success'' \<noteq> JBool True \<and> field r ''pass'' \<noteq> JBool True
      \<and> field (field r ''gradingResult'') ''pass'' \<noteq> JBool True)"
proof (cases "r = JNull \<or> r = JUndefined")
  case True
  then show ?thesis using verdict_nullish [OF True] by auto
next
  case False
  then show ?thesis using verdict_object [of r] by auto
qed

theorem strict_boolean_pass_signals_witness:
  "verdict (JObj [(str ''success'', JNum 1), (str ''pass'', JStr (str ''true'')),
                  (str ''gradingResult'', JObj [(str ''pass'', JNum 1)])]) = Inr False"
  using strict_boolean_pass_signals
    [of "JObj [(str ''success'', JNum 1), (str ''pass'', JStr (str ''true'')),
               (str ''gradingResult'', JObj [(str ''pass'', JNum 1)])]"]
  by (simp add: str_simps)

section \<open>Properties of the aggregation\<close>

lemma summary_step_Inr:
  assumes "summary_step i st = Inr st'"
  shows "\<exists>s. success_expr (results st ! i) = Inr s
           \<and> specKey_of (test_at (tests st) i) \<notin> set object_prototype_keys
           \<and> st' = st\<lparr>bySpec := update_group (specKey_of (test_at (tests st) i))
                   (count_case i s (requirement_of (test_at (tests st) i)))
                   (ensure_group (specKey_of (test_at (tests st) i)) (bySpec st))\<rparr>"
  using assms
  by (auto simp: summary_step_def Let_def and_then_def split: if_splits sum.splits)

lemma keys_update_group: "map fst (update_group k f b) = map fst b"
  by (induction b) (auto simp: update_group_def)

lemma map_of_update_group:
  "map_of (update_group k f b) k' = (if k' = k then map_option f (map_of b k) else map_of b k')"
  by (induction b) (auto simp: update_group_def)

lemma set_update_group:
  "(k', g') \<in> set (update_group k f b) \<Longrightarrow>
     (k' \<noteq> k \<and> (k', g') \<in> set b) \<or> (k' = k \<and> (\<exists>g. (k, g) \<in> set b \<and> g' = f g))"
  by (induction b) (auto simp: update_group_def split: if_splits)

lemma keys_ensure_group:
  "map fst (ensure_group k b) = (if map_of b k = None then map fst b @ [k] else map fst b)"
  by (simp add: ensure_group_def)

lemma distinct_ensure_group: "distinct (map fst b) \<Longrightarrow> distinct (map fst (ensure_group k b))"
  by (auto simp: ensure_group_def map_of_eq_None_iff)

lemma map_of_ensure_group_same: "\<exists>g. map_of (ensure_group k b) k = Some g"
  by (cases "map_of b k") (auto simp: ensure_group_def map_add_def)

lemma map_of_ensure_group_keeps:
  "map_of b k' = Some g \<Longrightarrow> map_of (ensure_group k b) k' = Some g"
  by (auto simp: ensure_group_def map_add_def)

lemma set_ensure_group:
  "(k', g) \<in> set (ensure_group k b) \<Longrightarrow>
     (k', g) \<in> set b \<or> g = \<lparr>pass = 0, fail = 0, cases = []\<rparr>"
  by (auto simp: ensure_group_def split: if_splits)

lemma sum_update_group:
  assumes "distinct (map fst b)" and "k \<in> set (map fst b)" and "\<And>g. h (f g) = Suc (h g)"
  shows "sum_list (map (\<lambda>(k', g). h g) (update_group k f b)) = Suc (sum_list (map (\<lambda>(k', g). h g) b))"
  using assms(1,2)
proof (induction b)
  case Nil
  then show ?case by simp
next
  case (Cons a b)
  obtain k' g where a: "a = (k', g)" by (cases a)
  show ?case
  proof (cases "k' = k")
    case True
    with Cons.prems a have "k \<notin> set (map fst b)" by auto
    then have "update_group k f b = b"
      by (induction b) (auto simp: update_group_def)
    with True a show ?thesis
      using assms(3) by (simp add: update_group_def)
  next
    case False
    with Cons a show ?thesis by (auto simp: update_group_def)
  qed
qed

lemma sum_ensure_group:
  "sum_list (map (\<lambda>(k', g). pass g + fail g) (ensure_group k b))
     = sum_list (map (\<lambda>(k', g). pass g + fail g) b)"
  by (simp add: ensure_group_def)

lemma count_case_weight: "pass (count_case i s q g) + fail (count_case i s q g) = Suc (pass g + fail g)"
  by (simp add: count_case_def)

lemma count_case_cases:
  "cases (count_case i s q g) = cases g @ [\<lparr>index = i + 1, success = s, case_requirement = q\<rparr>]"
  by (simp add: count_case_def)

lemma summary_loop_frame:
  "summary_loop i n st = Inr st' \<Longrightarrow> results st' = results st \<and> tests st' = tests st"
proof (induction n arbitrary: i st)
  case 0
  then show ?case by simp
next
  case (Suc n)
  from Suc.prems obtain st1 where s1: "summary_step i st = Inr st1"
    and l1: "summary_loop (Suc i) n st1 = Inr st'"
    by (auto simp: and_then_def split: sum.splits)
  from summary_step_Inr [OF s1] have "results st1 = results st \<and> tests st1 = tests st" by auto
  with Suc.IH [OF l1] show ?case by simp
qed


lemma summary_step_groups:
  assumes "summary_step i st = Inr st'"
    and "\<forall>(k, g) \<in> set (bySpec st). pass g + fail g = length (cases g)"
  shows "\<forall>(k, g) \<in> set (bySpec st'). pass g + fail g = length (cases g)"
proof -
  from summary_step_Inr [OF assms(1)] obtain s where
    st': "st' = st\<lparr>bySpec := update_group (specKey_of (test_at (tests st) i))
                   (count_case i s (requirement_of (test_at (tests st) i)))
                   (ensure_group (specKey_of (test_at (tests st) i)) (bySpec st))\<rparr>"
    by blast
  let ?k = "specKey_of (test_at (tests st) i)"
  let ?f = "count_case i s (requirement_of (test_at (tests st) i))"
  have ens: "pass g + fail g = length (cases g)" if "(k, g) \<in> set (ensure_group ?k (bySpec st))" for k g
    using set_ensure_group [OF that] assms(2) by auto
  have "pass g' + fail g' = length (cases g')"
    if "(k', g') \<in> set (update_group ?k ?f (ensure_group ?k (bySpec st)))" for k' g'
    using set_update_group [OF that] ens
    by (auto simp: count_case_weight count_case_cases)
  with st' show ?thesis by auto
qed

lemma summary_step_distinct:
  assumes "summary_step i st = Inr st'" and "distinct (map fst (bySpec st))"
  shows "distinct (map fst (bySpec st'))"
  using summary_step_Inr [OF assms(1)] assms(2)
  by (auto simp: keys_update_group distinct_ensure_group)

lemma summary_step_sum:
  assumes "summary_step i st = Inr st'" and "distinct (map fst (bySpec st))"
  shows "sum_list (map (\<lambda>(k, g). pass g + fail g) (bySpec st'))
           = Suc (sum_list (map (\<lambda>(k, g). pass g + fail g) (bySpec st)))"
proof -
  from summary_step_Inr [OF assms(1)] obtain s where
    st': "st' = st\<lparr>bySpec := update_group (specKey_of (test_at (tests st) i))
                   (count_case i s (requirement_of (test_at (tests st) i)))
                   (ensure_group (specKey_of (test_at (tests st) i)) (bySpec st))\<rparr>"
    by blast
  let ?k = "specKey_of (test_at (tests st) i)"
  have mem: "?k \<in> set (map fst (ensure_group ?k (bySpec st)))"
    using map_of_ensure_group_same [of ?k "bySpec st"]
    by (metis map_of_eq_None_iff option.distinct(1) set_map)
  have "sum_list (map (\<lambda>(k, g). pass g + fail g)
          (update_group ?k (count_case i s (requirement_of (test_at (tests st) i)))
             (ensure_group ?k (bySpec st))))
        = Suc (sum_list (map (\<lambda>(k, g). pass g + fail g) (ensure_group ?k (bySpec st))))"
    by (rule sum_update_group [OF distinct_ensure_group [OF assms(2)] mem]) (rule count_case_weight)
  with st' show ?thesis by (simp add: sum_ensure_group)
qed

lemma summary_step_new_case:
  assumes "summary_step i st = Inr st'"
  shows "\<exists>g s. success_expr (results st ! i) = Inr s
           \<and> map_of (bySpec st') (specKey_of (test_at (tests st) i)) = Some g
           \<and> \<lparr>index = i + 1, success = s,
                case_requirement = requirement_of (test_at (tests st) i)\<rparr> \<in> set (cases g)"
proof -
  from summary_step_Inr [OF assms(1)] obtain s where
    s: "success_expr (results st ! i) = Inr s" and
    st': "st' = st\<lparr>bySpec := update_group (specKey_of (test_at (tests st) i))
                   (count_case i s (requirement_of (test_at (tests st) i)))
                   (ensure_group (specKey_of (test_at (tests st) i)) (bySpec st))\<rparr>"
    by blast
  let ?k = "specKey_of (test_at (tests st) i)"
  obtain g0 where "map_of (ensure_group ?k (bySpec st)) ?k = Some g0"
    using map_of_ensure_group_same by blast
  with s st' show ?thesis
    by (auto simp: map_of_update_group count_case_cases)
qed

lemma summary_step_keeps_case:
  assumes "summary_step i st = Inr st'"
    and "map_of (bySpec st) k = Some g" and "c \<in> set (cases g)"
  shows "\<exists>g'. map_of (bySpec st') k = Some g' \<and> c \<in> set (cases g')"
proof -
  from summary_step_Inr [OF assms(1)] obtain s where
    st': "st' = st\<lparr>bySpec := update_group (specKey_of (test_at (tests st) i))
                   (count_case i s (requirement_of (test_at (tests st) i)))
                   (ensure_group (specKey_of (test_at (tests st) i)) (bySpec st))\<rparr>"
    by blast
  from map_of_ensure_group_keeps [OF assms(2)]
  have "map_of (ensure_group (specKey_of (test_at (tests st) i)) (bySpec st)) k = Some g" .
  with st' assms(3) show ?thesis
    by (auto simp: map_of_update_group count_case_cases)
qed

lemma summary_loop_keeps_case:
  "summary_loop i n st = Inr st' \<Longrightarrow> map_of (bySpec st) k = Some g \<Longrightarrow> c \<in> set (cases g)
     \<Longrightarrow> \<exists>g'. map_of (bySpec st') k = Some g' \<and> c \<in> set (cases g')"
proof (induction n arbitrary: i st g)
  case 0
  then show ?case by simp
next
  case (Suc n)
  from Suc.prems(1) obtain st1 where s1: "summary_step i st = Inr st1"
    and l1: "summary_loop (Suc i) n st1 = Inr st'"
    by (auto simp: and_then_def split: sum.splits)
  from summary_step_keeps_case [OF s1 Suc.prems(2,3)] obtain g1 where
    "map_of (bySpec st1) k = Some g1" "c \<in> set (cases g1)" by blast
  then show ?case by (rule Suc.IH [OF l1])
qed

lemma summary_loop_invariant:
  assumes "summary_loop i n st = Inr st'"
    and "distinct (map fst (bySpec st))"
    and "\<forall>(k, g) \<in> set (bySpec st). pass g + fail g = length (cases g)"
  shows "distinct (map fst (bySpec st'))
       \<and> (\<forall>(k, g) \<in> set (bySpec st'). pass g + fail g = length (cases g))
       \<and> sum_list (map (\<lambda>(k, g). pass g + fail g) (bySpec st'))
           = sum_list (map (\<lambda>(k, g). pass g + fail g) (bySpec st)) + n"
  using assms
proof (induction n arbitrary: i st)
  case 0
  then show ?case by simp
next
  case (Suc n)
  from Suc.prems(1) obtain st1 where s1: "summary_step i st = Inr st1"
    and l1: "summary_loop (Suc i) n st1 = Inr st'"
    by (auto simp: and_then_def split: sum.splits)
  note d1 = summary_step_distinct [OF s1 Suc.prems(2)]
  note g1 = summary_step_groups [OF s1 Suc.prems(3)]
  note m1 = summary_step_sum [OF s1 Suc.prems(2)]
  from Suc.IH [OF l1 d1 g1] m1 show ?case by simp
qed

lemma summary_loop_case_of_entry:
  assumes "summary_loop i n st = Inr st'" and "i \<le> j" and "j < i + n"
  shows "\<exists>g s. success_expr (results st ! j) = Inr s
           \<and> map_of (bySpec st') (specKey_of (test_at (tests st) j)) = Some g
           \<and> \<lparr>index = j + 1, success = s,
                case_requirement = requirement_of (test_at (tests st) j)\<rparr> \<in> set (cases g)"
  using assms
proof (induction n arbitrary: i st)
  case 0
  then show ?case by simp
next
  case (Suc n)
  from Suc.prems(1) obtain st1 where s1: "summary_step i st = Inr st1"
    and l1: "summary_loop (Suc i) n st1 = Inr st'"
    by (auto simp: and_then_def split: sum.splits)
  from summary_step_Inr [OF s1] have fr: "results st1 = results st" "tests st1 = tests st" by auto
  show ?case
  proof (cases "j = i")
    case True
    from summary_step_new_case [OF s1] obtain g s where
      s: "success_expr (results st ! i) = Inr s" and
      g: "map_of (bySpec st1) (specKey_of (test_at (tests st) i)) = Some g" and
      c: "\<lparr>index = i + 1, success = s,
           case_requirement = requirement_of (test_at (tests st) i)\<rparr> \<in> set (cases g)"
      by blast
    from summary_loop_keeps_case [OF l1 g c] s True show ?thesis by blast
  next
    case False
    with Suc.prems have "Suc i \<le> j" "j < Suc i + n" by auto
    from Suc.IH [OF l1 this] fr show ?thesis by simp
  qed
qed

lemma summary_loop_total:
  assumes "\<forall>j. i \<le> j \<and> j < i + n \<longrightarrow> results st ! j \<noteq> JNull \<and> results st ! j \<noteq> JUndefined
             \<and> specKey_of (test_at (tests st) j) \<notin> set object_prototype_keys"
  shows "\<exists>st'. summary_loop i n st = Inr st'"
  using assms
proof (induction n arbitrary: i st)
  case 0
  then show ?case by simp
next
  case (Suc n)
  have ri: "results st ! i \<noteq> JNull" "results st ! i \<noteq> JUndefined"
    and ki: "specKey_of (test_at (tests st) i) \<notin> set object_prototype_keys"
    using Suc.prems by auto
  have "\<exists>s. success_expr (results st ! i) = Inr s"
    using ri truthy_not_nullish [of "field (results st ! i) ''gradingResult''"]
    by (auto simp: success_expr_def and_then_def get_prop_def)
  then obtain st1 where s1: "summary_step i st = Inr st1"
    using ki by (auto simp: summary_step_def Let_def and_then_def)
  from summary_step_Inr [OF s1] have fr: "results st1 = results st" "tests st1 = tests st" by auto
  have "\<exists>st'. summary_loop (Suc i) n st1 = Inr st'"
    by (rule Suc.IH) (use Suc.prems fr in auto)
  with s1 show ?case by (simp add: and_then_def)
qed

lemma total_eq_sum:
  "total st = sum_list (map (\<lambda>(k, g). pass g + fail g) (bySpec st))"
proof -
  have "sum_list (map (\<lambda>(k, g). pass g + fail g) b)
          = sum_list (map (\<lambda>(k, g). pass g) b) + sum_list (map (\<lambda>(k, g). fail g) b)" for b :: "(jsstring \<times> group) list"
    by (induction b) auto
  then show ?thesis by (simp add: total_def totalPass_def totalFail_def)
qed

lemma aggregate_total:
  assumes "\<forall>r \<in> set R. r \<noteq> JNull \<and> r \<noteq> JUndefined"
    and "\<forall>i < length R. specKey_of (test_at T i) \<notin> set object_prototype_keys"
  shows "\<exists>st. aggregate R T = Inr st"
  unfolding aggregate_def
  by (rule summary_loop_total) (use assms in auto)

lemma example_run:
  "aggregate
     [JObj [(str ''success'', JBool True)], JObj [(str ''success'', JBool False)], JNum 3]
     [\<lparr>spec_requirements = [str ''tone''], requirement = str ''x''\<rparr>,
      \<lparr>spec_requirements = [str ''tone''], requirement = str ''y''\<rparr>]
   = Inr \<lparr>results = [JObj [(str ''success'', JBool True)], JObj [(str ''success'', JBool False)], JNum 3],
          tests = [\<lparr>spec_requirements = [str ''tone''], requirement = str ''x''\<rparr>,
                   \<lparr>spec_requirements = [str ''tone''], requirement = str ''y''\<rparr>],
          bySpec = [(str ''tone'', \<lparr>pass = 1, fail = 1, cases =
                       [\<lparr>index = 1, success = JBool True, case_requirement = str ''x''\<rparr>,
                        \<lparr>index = 2, success = JUndefined, case_requirement = str ''y''\<rparr>]\<rparr>),
                    (str ''unknown'', \<lparr>pass = 0, fail = 1, cases =
                       [\<lparr>index = 3, success = JUndefined, case_requirement = []\<rparr>]\<rparr>)]\<rparr>"
  by (simp add: aggregate_def summary_step_def test_at_def specKey_of_def first_spec_def
      requirement_of_def object_prototype_keys_def str_simps and_then_def success_expr_def
      get_prop_def update_group_def ensure_group_def count_case_def Let_def)

text \<open>
  C5. When the loop of generate-summary.js completes, the result and test sequences
  are the ones it was given, and for every index \<open>i\<close> of the results the case entry
  of \<open>R[i]\<close> (ordinal \<open>i + 1\<close>, the value of its success expression) stands in the
  group named by the first \<open>spec_requirements\<close> item of \<open>T[i]\<close>, with the requirement
  text of \<open>T[i]\<close>, when \<open>i < |T|\<close>; otherwise it stands in the group "unknown" with an
  empty requirement text.
\<close>

theorem correlator_pairing:
  assumes "aggregate R T = Inr st" and "i < length R"
  shows "results st = R \<and> tests st = T
       \<and> (\<exists>g s. success_expr (R ! i) = Inr s
             \<and> map_of (bySpec st) (if i < length T then first_spec (T ! i) else str ''unknown'') = Some g
             \<and> \<lparr>index = i + 1, success = s,
                  case_requirement = (if i < length T then requirement (T ! i) else [])\<rparr>
                 \<in> set (cases g))"
proof -
  let ?st0 = "\<lparr>results = R, tests = T, bySpec = []\<rparr>"
  from assms(1) have loop: "summary_loop 0 (length R) ?st0 = Inr st"
    by (simp add: aggregate_def)
  from summary_loop_frame [OF loop] have frame: "results st = R \<and> tests st = T" by simp
  from summary_loop_case_of_entry [OF loop, of i] assms(2)
  obtain g s where "success_expr (R ! i) = Inr s"
    and "map_of (bySpec st) (specKey_of (test_at T i)) = Some g"
    and "\<lparr>index = i + 1, success = s, case_requirement = requirement_of (test_at T i)\<rparr> \<in> set (cases g)"
    by auto
  moreover have "specKey_of (test_at T i) = (if i < length T then first_spec (T ! i) else str ''unknown'')"
    by (simp add: specKey_of_def test_at_def)
  moreover have "requirement_of (test_at T i) = (if i < length T then requirement (T ! i) else [])"
    by (simp add: requirement_of_def test_at_def)
  ultimately show ?thesis using frame by auto
qed

theorem correlator_pairing_witness:
  "\<exists>st g. aggregate
     [JObj [(str ''success'', JBool True)], JObj [(str ''success'', JBool False)], JNum 3]
     [\<lparr>spec_requirements = [str ''tone''], requirement = str ''x''\<rparr>,
      \<lparr>spec_requirements = [str ''tone''], requirement = str ''y''\<rparr>] = Inr st
    \<and> map_of (bySpec st) (str ''unknown'') = Some g
    \<and> \<lparr>index = 3, success = JUndefined, case_requirement = []\<rparr> \<in> set (cases g)"
  using correlator_pairing [OF example_run, of 2]
  by (simp add: example_run success_expr_def and_then_def get_prop_def)

text \<open>
  C8. When the loop completes, every group has \<open>pass + fail\<close> equal to the number of
  its cases, the group keys are pairwise distinct, and the sum of \<open>pass + fail\<close> over
  the groups, which is the \<open>total\<close> that \<open>main\<close> computes, is the number of result
  entries.
\<close>

theorem aggregator_counts:
  assumes "aggregate R T = Inr st"
  shows "distinct (map fst (bySpec st))
       \<and> (\<forall>(k, g) \<in> set (bySpec st). pass g + fail g = length (cases g))
       \<and> sum_list (map (\<lambda>(k, g). pass g + fail g) (bySpec st)) = length R
       \<and> total st = length R"
proof -
  let ?st0 = "\<lparr>results = R, tests = T, bySpec = []\<rparr>"
  from assms have loop: "summary_loop 0 (length R) ?st0 = Inr st"
    by (simp add: aggregate_def)
  from summary_loop_invariant [OF loop] show ?thesis
    by (simp add: total_eq_sum)
qed

theorem aggregator_counts_witness:
  "\<exists>st. aggregate
     [JObj [(str ''success'', JBool True)], JObj [(str ''success'', JBool False)], JNum 3]
     [\<lparr>spec_requirements = [str ''tone''], requirement = str ''x''\<rparr>,
      \<lparr>spec_requirements = [str ''tone''], requirement = str ''y''\<rparr>] = Inr st
    \<and> total st = 3"
  using aggregator_counts [OF example_run]
  by (simp add: example_run)

section \<open>Properties of the rounding and of the recommendations\<close>

lemma halvings_bounds: "1 \<le> x \<Longrightarrow> 2 ^ halvings x \<le> x \<and> x < 2 ^ Suc (halvings x)"
proof (induction x rule: halvings.induct)
  case (1 x)
  show ?case
  proof (cases "x < 2")
    case True
    with "1.prems" show ?thesis by (simp add: halvings.simps)
  next
    case False
    then have "1 \<le> x / 2" by simp
    from "1.IH" [OF False this] False show ?thesis
      by (simp add: halvings.simps [of x])
  qed
qed

lemma doublings_bounds:
  "0 < x \<Longrightarrow> x < 1 \<Longrightarrow> 1 \<le> x * 2 ^ doublings x \<and> x * 2 ^ doublings x < 2"
proof (induction x rule: doublings.induct)
  case (1 x)
  then have n: "\<not> (x \<le> 0 \<or> 1 \<le> x)" by simp
  show ?case
  proof (cases "1 \<le> 2 * x")
    case True
    then have "doublings (2 * x) = 0" by (simp add: doublings.simps)
    with n True "1.prems" show ?thesis
      by (simp add: doublings.simps [of x])
  next
    case False
    with "1.IH" [OF n] "1.prems" n show ?thesis
      by (simp add: doublings.simps [of x] mult.assoc mult.left_commute)
  qed
qed


lemma ilog2_bounds:
  assumes "0 < x"
  shows "2 powi ilog2 x \<le> x" and "x < 2 powi (ilog2 x + 1)"
proof -
  have "2 powi ilog2 x \<le> x \<and> x < 2 powi (ilog2 x + 1)"
  proof (cases "1 \<le> x")
    case True
    with halvings_bounds [OF True] show ?thesis
      by (simp add: ilog2_def power_int_add)
  next
    case False
    with assms have x1: "x < 1" by simp
    let ?n = "doublings x"
    from doublings_bounds [OF assms x1]
    have b: "1 \<le> x * 2 ^ ?n" "x * 2 ^ ?n < 2" by auto
    have p: "(2::rat) powi (- int ?n) = 1 / 2 ^ ?n"
      by (simp add: power_int_minus field_simps)
    have "1 / 2 ^ ?n \<le> x" using b(1) by (simp add: field_simps)
    moreover have "x < 2 / 2 ^ ?n" using b(2) by (simp add: field_simps)
    moreover have "(2::rat) powi (1 - int ?n) = 2 / 2 ^ ?n"
      by (simp add: power_int_diff)
    ultimately show ?thesis
      using False by (simp add: ilog2_def p)
  qed
  then show "2 powi ilog2 x \<le> x" and "x < 2 powi (ilog2 x + 1)" by simp_all
qed

lemma ilog2_mono:
  assumes "0 < x" and "x \<le> y"
  shows "ilog2 x \<le> ilog2 y"
proof (rule ccontr)
  assume "\<not> ilog2 x \<le> ilog2 y"
  then have "ilog2 y + 1 \<le> ilog2 x" by simp
  then have "(2::rat) powi (ilog2 y + 1) \<le> 2 powi ilog2 x"
    by (intro power_int_increasing) simp_all
  also have "\<dots> \<le> x" using assms(1) by (rule ilog2_bounds)
  also note assms(2)
  also have "y < 2 powi (ilog2 y + 1)" using assms by (intro ilog2_bounds) simp
  finally show False by simp
qed

lemma round_even_of_int: "round_even (of_int n) = n"
  by (simp add: round_even_def)

lemma round_even_floor: "\<lfloor>x\<rfloor> \<le> round_even x" "round_even x \<le> \<lfloor>x\<rfloor> + 1"
  by (simp_all add: round_even_def Let_def)

lemma round_even_mono: "x \<le> y \<Longrightarrow> round_even x \<le> round_even y"
proof -
  assume xy: "x \<le> y"
  then have f: "\<lfloor>x\<rfloor> \<le> \<lfloor>y\<rfloor>" by (rule floor_mono)
  show ?thesis
  proof (cases "\<lfloor>x\<rfloor> = \<lfloor>y\<rfloor>")
    case True
    with xy show ?thesis
      by (auto simp: round_even_def Let_def)
  next
    case False
    with f have "\<lfloor>x\<rfloor> + 1 \<le> \<lfloor>y\<rfloor>" by simp
    with round_even_floor(2) [of x] round_even_floor(1) [of y] show ?thesis by linarith
  qed
qed

lemma fl_range:
  assumes "0 < x"
  shows "2 powi ilog2 x \<le> fl x" and "fl x \<le> 2 powi (ilog2 x + 1)"
proof -
  define u :: rat where "u = 2 powi (ilog2 x - 52)"
  have u: "0 < u" by (simp add: u_def)
  have lo: "2 powi ilog2 x = u * 2 ^ 52" and hi: "2 powi (ilog2 x + 1) = u * 2 ^ 53"
    by (simp_all add: u_def power_int_diff power_int_add)
  have fl: "fl x = u * of_int (round_even (x / u))"
    using assms by (simp add: fl_def u_def Let_def)
  from ilog2_bounds(1) [OF assms] have "u * 2 ^ 52 \<le> x" unfolding lo .
  then have "(2::rat) ^ 52 \<le> x / u"
    using u by (simp add: field_simps)
  then have "round_even (of_int (2 ^ 52)) \<le> round_even (x / u)"
    by (intro round_even_mono) simp
  then have "(2::rat) ^ 52 \<le> of_int (round_even (x / u))"
    unfolding round_even_of_int by (metis of_int_le_iff of_int_numeral of_int_power)
  then show "2 powi ilog2 x \<le> fl x"
    using u by (simp add: lo fl)
  from ilog2_bounds(2) [OF assms] have "x < u * 2 ^ 53" unfolding hi .
  then have "x / u \<le> (2::rat) ^ 53"
    using u by (simp add: field_simps)
  then have "round_even (x / u) \<le> round_even (of_int (2 ^ 53))"
    by (intro round_even_mono) simp
  then have "of_int (round_even (x / u)) \<le> (2::rat) ^ 53"
    unfolding round_even_of_int by (metis of_int_le_iff of_int_numeral of_int_power)
  then show "fl x \<le> 2 powi (ilog2 x + 1)"
    using u by (simp add: hi fl)
qed

lemma fl_mono:
  assumes "0 \<le> x" and "x \<le> y"
  shows "fl x \<le> fl y"
proof (cases "x = 0")
  case True
  show ?thesis
  proof (cases "y = 0")
    case True
    with \<open>x = 0\<close> show ?thesis by simp
  next
    case False
    with assms True have "0 < y" by simp
    from fl_range(1) [OF this] have "0 \<le> fl y"
      by (meson order_trans zero_le_power_int zero_le_numeral)
    with True show ?thesis by (simp add: fl_def)
  qed
next
  case False
  with assms have x: "0 < x" and y: "0 < y" by simp_all
  from ilog2_mono [OF x assms(2)] have e: "ilog2 x \<le> ilog2 y" .
  show ?thesis
  proof (cases "ilog2 x = ilog2 y")
    case True
    define u :: rat where "u = 2 powi (ilog2 x - 52)"
    have u: "0 < u" by (simp add: u_def)
    have "round_even (x / u) \<le> round_even (y / u)"
      using assms(2) u by (intro round_even_mono) (simp add: divide_right_mono)
    then have "u * of_int (round_even (x / u)) \<le> u * of_int (round_even (y / u))"
      using u by simp
    then show ?thesis
      using x y True by (simp add: fl_def u_def Let_def)
  next
    case False
    with e have "ilog2 x + 1 \<le> ilog2 y" by simp
    then have "(2::rat) powi (ilog2 x + 1) \<le> 2 powi ilog2 y"
      by (intro power_int_increasing) simp_all
    with fl_range(2) [OF x] fl_range(1) [OF y] show ?thesis by linarith
  qed
qed

lemma fl_two_fifths: "fl (2 / 5) = 3602879701896397 / 9007199254740992" by code_simp
lemma fl_forty: "fl (3602879701896397 / 9007199254740992 * 100) = 40" by code_simp
lemma fl_below_two_fifths: "fl (27487790694 / 68719476736) = 27487790694 / 68719476736" by code_simp
lemma fl_below_forty: "fl (27487790694 / 68719476736 * 100) < 40" by code_simp
lemma fl_seven_tenths: "fl (7 / 10) = 3152519739159347 / 4503599627370496" by code_simp
lemma fl_seventy: "fl (3152519739159347 / 4503599627370496 * 100) = 70" by code_simp
lemma fl_below_seven_tenths: "fl (48103633715 / 68719476736) = 48103633715 / 68719476736" by code_simp
lemma fl_below_seventy: "fl (48103633715 / 68719476736 * 100) < 70" by code_simp

lemma percentage_below_40:
  assumes "0 < t" and "t < 2 ^ 32"
  shows "percentage p t < 40 \<longleftrightarrow> 5 * p < 2 * t"
proof
  assume lt: "5 * p < 2 * t"
  with assms(2) have "p * 68719476736 \<le> 27487790694 * t" by simp
  then have "(of_nat (p * 68719476736) :: rat) \<le> of_nat (27487790694 * t)"
    by (simp only: of_nat_le_iff)
  then have q: "(of_nat p / of_nat t :: rat) \<le> 27487790694 / 68719476736"
    using assms(1) by (simp add: field_simps)
  have "fl (of_nat p / of_nat t) \<le> fl (27487790694 / 68719476736)"
    by (rule fl_mono [OF _ q]) simp
  then have "fl (of_nat p / of_nat t) * 100 \<le> 27487790694 / 68719476736 * 100"
    unfolding fl_below_two_fifths by simp
  moreover have "0 \<le> fl (of_nat p / of_nat t) * 100"
    using fl_mono [of 0 "of_nat p / of_nat t"] by (simp add: fl_def)
  ultimately have "fl (fl (of_nat p / of_nat t) * 100) \<le> fl (27487790694 / 68719476736 * 100)"
    by (intro fl_mono)
  with fl_below_forty assms(1) show "percentage p t < 40"
    by (simp add: percentage_def)
next
  assume r: "percentage p t < 40"
  show "5 * p < 2 * t"
  proof (rule ccontr)
    assume "\<not> 5 * p < 2 * t"
    then have "2 * t \<le> 5 * p" by simp
    then have "(of_nat (2 * t) :: rat) \<le> of_nat (5 * p)" by (simp only: of_nat_le_iff)
    then have q: "(2 / 5 :: rat) \<le> of_nat p / of_nat t"
      using assms(1) by (simp add: field_simps)
    have "fl (2 / 5) \<le> fl (of_nat p / of_nat t)"
      by (rule fl_mono [OF _ q]) simp
    then have "3602879701896397 / 9007199254740992 * 100 \<le> fl (of_nat p / of_nat t) * 100"
      unfolding fl_two_fifths by simp
    then have "fl (3602879701896397 / 9007199254740992 * 100) \<le> fl (fl (of_nat p / of_nat t) * 100)"
      by (intro fl_mono) simp_all
    then have "40 \<le> fl (fl (of_nat p / of_nat t) * 100)"
      unfolding fl_forty .
    with r assms(1) show False
      by (simp add: percentage_def)
  qed
qed

lemma percentage_below_70:
  assumes "0 < t" and "t < 2 ^ 32"
  shows "percentage p t < 70 \<longleftrightarrow> 10 * p < 7 * t"
proof
  assume lt: "10 * p < 7 * t"
  with assms(2) have "p * 68719476736 \<le> 48103633715 * t" by simp
  then have "(of_nat (p * 68719476736) :: rat) \<le> of_nat (48103633715 * t)"
    by (simp only: of_nat_le_iff)
  then have q: "(of_nat p / of_nat t :: rat) \<le> 48103633715 / 68719476736"
    using assms(1) by (simp add: field_simps)
  have "fl (of_nat p / of_nat t) \<le> fl (48103633715 / 68719476736)"
    by (rule fl_mono [OF _ q]) simp
  then have "fl (of_nat p / of_nat t) * 100 \<le> 48103633715 / 68719476736 * 100"
    unfolding fl_below_seven_tenths by simp
  moreover have "0 \<le> fl (of_nat p / of_nat t) * 100"
    using fl_mono [of 0 "of_nat p / of_nat t"] by (simp add: fl_def)
  ultimately have "fl (fl (of_nat p / of_nat t) * 100) \<le> fl (48103633715 / 68719476736 * 100)"
    by (intro fl_mono)
  with fl_below_seventy assms(1) show "percentage p t < 70"
    by (simp add: percentage_def)
next
  assume r: "percentage p t < 70"
  show "10 * p < 7 * t"
  proof (rule ccontr)
    assume "\<not> 10 * p < 7 * t"
    then have "7 * t \<le> 10 * p" by simp
    then have "(of_nat (7 * t) :: rat) \<le> of_nat (10 * p)" by (simp only: of_nat_le_iff)
    then have q: "(7 / 10 :: rat) \<le> of_nat p / of_nat t"
      using assms(1) by (simp add: field_simps)
    have "fl (7 / 10) \<le> fl (of_nat p / of_nat t)"
      by (rule fl_mono [OF _ q]) simp
    then have "3152519739159347 / 4503599627370496 * 100 \<le> fl (of_nat p / of_nat t) * 100"
      unfolding fl_seven_tenths by simp
    then have "fl (3152519739159347 / 4503599627370496 * 100) \<le> fl (fl (of_nat p / of_nat t) * 100)"
      by (intro fl_mono) simp_all
    then have "70 \<le> fl (fl (of_nat p / of_nat t) * 100)"
      unfolding fl_seventy .
    with r assms(1) show False
      by (simp add: percentage_def)
  qed
qed


lemma exact_below:
  assumes "0 < t"
  shows "exact_percentage p t < 40 \<longleftrightarrow> 5 * p < 2 * t"
    and "exact_percentage p t < 70 \<longleftrightarrow> 10 * p < 7 * t"
proof -
  have "(of_nat p / of_nat t * 100 < (40::rat)) = (of_nat (5 * p) < (of_nat (2 * t) :: rat))"
    using assms by (simp add: field_simps)
  then show "exact_percentage p t < 40 \<longleftrightarrow> 5 * p < 2 * t"
    using assms by (simp only: of_nat_less_iff exact_percentage_def) simp
  have "(of_nat p / of_nat t * 100 < (70::rat)) = (of_nat (10 * p) < (of_nat (7 * t) :: rat))"
    using assms by (simp add: field_simps)
  then show "exact_percentage p t < 70 \<longleftrightarrow> 10 * p < 7 * t"
    using assms by (simp only: of_nat_less_iff exact_percentage_def) simp
qed

text \<open>
  With no entries, \<open>getRecommendations\<close> returns from its guard \<open>total === 0\<close> with the
  one recommendation to generate test cases.
\<close>

lemma getRecommendations_no_entries:
  "getRecommendations bySpec' totalPass' totalFail' 0 = [RunGenerate]"
  by (simp add: getRecommendations_def)

text \<open>
  C6. For a run with at least one result entry (and fewer than \<open>2^32\<close>, the bound on
  the length of an array), exactly one of the three bucket lines is recommended, as the
  first line: the low-pass-rate line when the exact overall rate is strictly below 40
  percent, the moderate line when it is at least 40 and strictly below 70 percent, the
  good-baseline line when it is at least 70 percent. The rate the code compares is
  rounded twice, and falls on the same side of 40 and of 70 as the exact one; a rate of
  exactly 40.0 percent yields the moderate line and exactly 70.0 percent the
  good-baseline line. A run without entries is the case of section 4.4 in which a single
  recommendation replaces all others (\<open>getRecommendations_no_entries\<close>).
\<close>

theorem recommendation_buckets:
  assumes "0 < total'" and "totalPass' \<le> total'" and "total' < 2 ^ 32"
  shows "\<exists>rest. getRecommendations bySpec' totalPass' totalFail' total'
            = (if exact_percentage totalPass' total' < 40 then LowPassRate
               else if exact_percentage totalPass' total' < 70 then ModeratePassRate
               else GoodBaseline) # rest
          \<and> LowPassRate \<notin> set rest \<and> ModeratePassRate \<notin> set rest \<and> GoodBaseline \<notin> set rest"
proof -
  note a = percentage_below_40 [OF assms(1,3), of totalPass']
  note b = percentage_below_70 [OF assms(1,3), of totalPass']
  note e = exact_below [OF assms(1), of totalPass']
  show ?thesis
    using assms(1) a b e
    by (auto simp: getRecommendations_def Let_def)
qed

theorem recommendation_buckets_witness:
  "(\<exists>rest. getRecommendations [] 2 3 5 = ModeratePassRate # rest)
   \<and> (\<exists>rest. getRecommendations [] 7 3 10 = GoodBaseline # rest)
   \<and> (\<exists>rest. getRecommendations [] 1 2 3 = LowPassRate # rest)"
  using recommendation_buckets [of 5 2 "[]" 3] recommendation_buckets [of 10 7 "[]" 3]
    recommendation_buckets [of 3 1 "[]" 2]
  by (auto simp: exact_percentage_def)
section \<open>Properties of the failure extraction\<close>

lemma field_pass_truthy: "field c ''pass'' = JBool False \<Longrightarrow> truthy c"
  by (cases c) simp_all

lemma find_failed_Inr:
  "find_failed cs = Inr v \<Longrightarrow>
     (case find (\<lambda>c. field c ''pass'' = JBool False) cs of
        Some c \<Rightarrow> v = c \<and> truthy c
      | None \<Rightarrow> v = JUndefined)"
proof (induction cs)
  case Nil
  then show ?case by simp
next
  case (Cons c cs)
  then show ?case
    by (auto simp: and_then_def get_prop_def field_pass_truthy split: if_splits)
qed

lemma js_and_assertion:
  "truthy (js_and (field c ''assertion'') (field (field c ''assertion'') ''value''))
     = truthy (assertionText c)"
  "truthy (assertionText c) \<Longrightarrow>
     js_and (field c ''assertion'') (field (field c ''assertion'') ''value'') = assertionText c"
  by (cases "field c ''assertion''"; simp add: js_and_def assertionText_def)+

lemma first_failure_Inr:
  assumes "first_failure (field r ''gradingResult'') = Inr (fa, r1)"
  shows "case first_failed r of
           Some c \<Rightarrow> fa = js_and (field c ''assertion'') (field (field c ''assertion'') ''value'')
                      \<and> r1 = js_or (field c ''reason'') (JStr [])
         | None \<Rightarrow> fa = JNull \<and> r1 = JStr []"
proof -
  let ?g = "field r ''gradingResult''"
  let ?cr = "field ?g ''componentResults''"
  show ?thesis
  proof (cases "truthy (js_and ?g ?cr)")
    case False
    then have "\<not> truthy ?cr"
      by (cases ?g) (auto simp: js_and_def)
    then have "sub_assertions r = []"
      by (cases ?cr) (auto simp: sub_assertions_def)
    with False assms show ?thesis
      by (simp add: first_failure_def first_failed_def)
  next
    case True
    with assms obtain failed where ff: "array_find_failed ?cr = Inr failed"
      and res: "(if truthy failed
                 then Inr (js_and (field failed ''assertion'') (field (field failed ''assertion'') ''value''),
                           js_or (field failed ''reason'') (JStr []))
                 else Inr (JNull, JStr [])) = (Inr (fa, r1) :: error + json \<times> json)"
      by (auto simp: first_failure_def and_then_def split: sum.splits)
    from ff obtain cs where cr: "?cr = JArr cs" and f: "find_failed cs = Inr failed"
      by (auto simp: array_find_failed_def split: json.splits)
    have sa: "sub_assertions r = cs" by (simp add: sub_assertions_def cr)
    from find_failed_Inr [OF f] res show ?thesis
      by (auto simp: first_failed_def sa split: option.splits if_splits)
  qed
qed

lemma top_reason_falsy: "\<not> truthy (field r ''gradingResult'') \<Longrightarrow> top_reason r = JUndefined"
  by (cases "field r ''gradingResult''") (auto simp: top_reason_def)

text \<open>
  The records come in the order of the entries, with the ordinals of their entries:
  the ordinals of the extracted failures are pairwise distinct.
\<close>

lemma extract_failure_Some:
  assumes "extract_failure to_string i r = Inr (Some f)"
  shows "verdict r = Inr False
       \<and> (\<exists>fa r1 inp out sliced.
             first_failure (field r ''gradingResult'') = Inr (fa, r1)
           \<and> entry_input to_string r = Inr inp
           \<and> entry_output to_string r = Inr out
           \<and> js_slice 300 (final_reason (field r ''gradingResult'') fa r1) = Inr sliced
           \<and> f = \<lparr>testIndex = i + 1, inputSnippet = take 500 inp, outputSnippet = take 800 out,
                    failingAssertion =
                      js_or (js_or fa (final_reason (field r ''gradingResult'') fa r1)) (JStr sentinel),
                    reason = sliced\<rparr>)"
proof -
  from assms have v: "verdict r = Inr False"
    by (auto simp: extract_failure_def and_then_def split: sum.splits if_splits)
  with assms show ?thesis
    by (auto simp: extract_failure_def and_then_def Let_def split: sum.splits prod.splits)
qed

lemma extract_failure_testIndex:
  "extract_failure to_string i r = Inr (Some f) \<Longrightarrow> testIndex f = Suc i"
  using extract_failure_Some [of to_string i r f] by auto

lemma extract_failure_pass:
  "verdict r = Inr True \<Longrightarrow> extract_failure to_string i r = Inr None"
  by (simp add: extract_failure_def and_then_def)

lemma extract_from_ordinals:
  "extract_from to_string i R = Inr fs \<Longrightarrow>
     (\<forall>f \<in> set fs. i < testIndex f \<and> testIndex f \<le> i + length R) \<and> distinct (map testIndex fs)"
proof (induction R arbitrary: i fs)
  case Nil
  then show ?case by simp
next
  case (Cons r R)
  from Cons.prems obtain f fs' where
    f: "extract_failure to_string i r = Inr f" and
    fs': "extract_from to_string (Suc i) R = Inr fs'" and
    fs: "fs = (case f of None \<Rightarrow> fs' | Some x \<Rightarrow> x # fs')"
    by (auto simp: and_then_def split: sum.splits)
  from Cons.IH [OF fs'] have ih: "\<forall>f \<in> set fs'. Suc i < testIndex f \<and> testIndex f \<le> Suc i + length R"
    and d: "distinct (map testIndex fs')" by auto
  show ?case
  proof (cases f)
    case None
    with fs ih d show ?thesis by auto
  next
    case (Some x)
    with f have "testIndex x = Suc i" by (simp add: extract_failure_testIndex)
    with Some fs ih d show ?thesis by auto
  qed
qed

lemma extract_failures_distinct:
  "extract_failures to_string R = Inr fs \<Longrightarrow> distinct (map testIndex fs)"
  using extract_from_ordinals [of to_string 0 R fs] by (simp add: extract_failures_def)

text \<open>
  C7, as amended. For every entry for which the extractor pushes a record (its verdict
  is fail): the failing-assertion text is the assertion text of the first sub-assertion
  with \<open>passed = false\<close> when there is such a sub-assertion and its assertion text is
  present and not empty; otherwise it is the top-level reason of the grading result when
  that is present and not empty, and the sentinel otherwise. A non-empty sub-assertion
  list alone does not select the assertion text. The input snippet is the first 500 code
  units of the entry's input, the output snippet the first 800 of its output, and the
  reason the first 300 of the reason that goes with the chosen text.
\<close>

theorem failure_record_fields:
  assumes "extract_failure to_string i r = Inr (Some f)"
  shows "verdict r = Inr False
       \<and> testIndex f = i + 1
       \<and> failingAssertion f =
           (case first_failed r of
              Some c \<Rightarrow> if truthy (assertionText c) then assertionText c
                         else js_or (top_reason r) (JStr sentinel)
            | None \<Rightarrow> js_or (top_reason r) (JStr sentinel))
       \<and> (\<exists>s. entry_input to_string r = Inr s \<and> inputSnippet f = take 500 s)
       \<and> length (inputSnippet f) \<le> 500
       \<and> (\<exists>s. entry_output to_string r = Inr s \<and> outputSnippet f = take 800 s)
       \<and> length (outputSnippet f) \<le> 800
       \<and> js_slice 300 (reason_source r) = Inr (reason f)"
proof -
  let ?g = "field r ''gradingResult''"
  from extract_failure_Some [OF assms] obtain fa r1 inp out sliced where
    v: "verdict r = Inr False" and
    ff: "first_failure ?g = Inr (fa, r1)" and
    inp: "entry_input to_string r = Inr inp" and
    out: "entry_output to_string r = Inr out" and
    sl: "js_slice 300 (final_reason ?g fa r1) = Inr sliced" and
    f: "f = \<lparr>testIndex = i + 1, inputSnippet = take 500 inp, outputSnippet = take 800 out,
              failingAssertion = js_or (js_or fa (final_reason ?g fa r1)) (JStr sentinel),
              reason = sliced\<rparr>"
    by blast
  note cases = first_failure_Inr [OF ff]
  have fin: "final_reason ?g fa r1 = reason_source r"
  proof (cases "first_failed r")
    case None
    with cases have "fa = JNull" "r1 = JStr []" by auto
    then show ?thesis
      using None top_reason_falsy [of r]
      by (auto simp: final_reason_def reason_source_def js_and_def js_or_def top_reason_def)
  next
    case (Some c)
    with cases have fa: "fa = js_and (field c ''assertion'') (field (field c ''assertion'') ''value'')"
      and r1: "r1 = js_or (field c ''reason'') (JStr [])" by auto
    have g: "truthy ?g"
    proof (rule ccontr)
      assume "\<not> truthy ?g"
      then have "field ?g ''componentResults'' = JUndefined" by (cases ?g) auto
      then have "sub_assertions r = []" by (simp add: sub_assertions_def)
      with Some show False by (simp add: first_failed_def)
    qed
    show ?thesis
      using Some g js_and_assertion [of c]
      by (auto simp: final_reason_def reason_source_def fa r1 js_and_def top_reason_def)
  qed
  have fa_text: "js_or (js_or fa (reason_source r)) (JStr sentinel) =
           (case first_failed r of
              Some c \<Rightarrow> if truthy (assertionText c) then assertionText c
                         else js_or (top_reason r) (JStr sentinel)
            | None \<Rightarrow> js_or (top_reason r) (JStr sentinel))"
  proof (cases "first_failed r")
    case None
    with cases have "fa = JNull" by auto
    with None show ?thesis by (auto simp: reason_source_def js_or_def)
  next
    case (Some c)
    with cases have fa: "fa = js_and (field c ''assertion'') (field (field c ''assertion'') ''value'')"
      by auto
    show ?thesis
      using Some js_and_assertion [of c]
      by (auto simp: reason_source_def fa js_or_def)
  qed
  show ?thesis
    using v f inp out sl fin fa_text by simp
qed

theorem failure_record_fields_witness:
  "extract_failure no_to_string 1
     (JObj [(str ''success'', JBool False),
            (str ''gradingResult'', JObj [(str ''componentResults'',
               JArr [JObj [(str ''pass'', JBool False),
                           (str ''assertion'', JObj [(str ''value'', JStr (str ''output.includes(luxury)''))]),
                           (str ''reason'', JStr (str ''missing keyword''))]])])])
   = Inr (Some \<lparr>testIndex = 2, inputSnippet = [], outputSnippet = [],
                    failingAssertion = JStr (str ''output.includes(luxury)''),
                    reason = JStr (str ''missing keyword'')\<rparr>)
   \<and> verdict (JObj [(str ''success'', JBool False),
            (str ''gradingResult'', JObj [(str ''componentResults'',
               JArr [JObj [(str ''pass'', JBool False),
                           (str ''assertion'', JObj [(str ''value'', JStr (str ''output.includes(luxury)''))]),
                           (str ''reason'', JStr (str ''missing keyword''))]])])]) = Inr False"
proof -
  let ?r = "JObj [(str ''success'', JBool False),
            (str ''gradingResult'', JObj [(str ''componentResults'',
               JArr [JObj [(str ''pass'', JBool False),
                           (str ''assertion'', JObj [(str ''value'', JStr (str ''output.includes(luxury)''))]),
                           (str ''reason'', JStr (str ''missing keyword''))]])])]"
  have run: "extract_failure no_to_string 1 ?r
     = Inr (Some \<lparr>testIndex = 2, inputSnippet = [], outputSnippet = [],
                    failingAssertion = JStr (str ''output.includes(luxury)''),
                    reason = JStr (str ''missing keyword'')\<rparr>)"
    by (simp add: extract_failure_def verdict_def success_expr_def and_then_def get_prop_def
        first_failure_def array_find_failed_def final_reason_def entry_input_def
        entry_output_def js_slice_def js_and_def js_or_def str_simps Let_def)
  from failure_record_fields [OF run] run show ?thesis by simp
qed

theorem nonempty_list_counterexample:
  "extract_failure no_to_string 0
     (JObj [(str ''gradingResult'', JObj [(str ''reason'', JStr (str ''top'')),
               (str ''componentResults'',
                JArr [JObj [(str ''pass'', JBool False),
                            (str ''assertion'', JObj [(str ''value'', JStr [])]),
                            (str ''reason'', JStr (str ''sub''))]])])])
   = Inr (Some \<lparr>testIndex = 1, inputSnippet = [], outputSnippet = [],
                    failingAssertion = JStr (str ''top''), reason = JStr (str ''top'')\<rparr>)
   \<and> sub_assertions
     (JObj [(str ''gradingResult'', JObj [(str ''reason'', JStr (str ''top'')),
               (str ''componentResults'',
                JArr [JObj [(str ''pass'', JBool False),
                            (str ''assertion'', JObj [(str ''value'', JStr [])]),
                            (str ''reason'', JStr (str ''sub''))]])])]) \<noteq> []
   \<and> claimed_failing_assertion
     (JObj [(str ''gradingResult'', JObj [(str ''reason'', JStr (str ''top'')),
               (str ''componentResults'',
                JArr [JObj [(str ''pass'', JBool False),
                            (str ''assertion'', JObj [(str ''value'', JStr [])]),
                            (str ''reason'', JStr (str ''sub''))]])])]) = Some (JStr [])"
  by (simp add: extract_failure_def verdict_def success_expr_def and_then_def get_prop_def
      first_failure_def array_find_failed_def final_reason_def entry_input_def
      entry_output_def js_slice_def js_and_def js_or_def str_simps Let_def
      claimed_failing_assertion_def sub_assertions_def first_failed_def assertionText_def)

section \<open>Properties of the segmenter\<close>

lemma split_blocks_nonempty: "split_blocks s \<noteq> []"
  by (induction s) (auto split: list.splits)

lemma join_nl_Cons: "bs \<noteq> [] \<Longrightarrow> join_nl (b # bs) = b @ nl # join_nl bs"
  by (cases bs) simp_all

lemma join_nl_Cons_hd: "bs \<noteq> [] \<Longrightarrow> join_nl ((c # hd bs) # tl bs) = c # join_nl bs"
  by (cases bs; cases "tl bs") auto

lemma join_split_blocks: "join_nl (split_blocks s) = s"
proof (induction s)
  case Nil
  then show ?case by simp
next
  case (Cons c cs)
  show ?case
  proof (cases "c = nl \<and> marker_at cs")
    case True
    then show ?thesis
      using Cons split_blocks_nonempty [of cs] by (simp add: join_nl_Cons)
  next
    case False
    obtain b bs where s: "split_blocks cs = b # bs"
      using split_blocks_nonempty [of cs] by (cases "split_blocks cs") auto
    with False Cons show ?thesis
      by (cases bs) auto
  qed
qed

lemma length_split_blocks: "length (split_blocks s) = Suc (markers_after_newline s)"
  by (induction s) (auto split: list.splits simp: split_blocks_nonempty)

lemma starts_with_includes: "starts_with p s \<Longrightarrow> js_includes p s"
  by (cases s) (auto simp: starts_with_def)

lemma js_includes_append: "js_includes p ys \<Longrightarrow> js_includes p (xs @ ys)"
  by (induction xs) auto

lemma starts_with_length: "starts_with p s \<Longrightarrow> length p \<le> length s"
proof -
  assume "starts_with p s"
  then have "length (take (length p) s) = length p" by (simp add: starts_with_def)
  then show ?thesis by simp
qed

lemma starts_with_append: "starts_with p xs \<Longrightarrow> starts_with p (xs @ ys)"
  using starts_with_length [of p xs] by (simp add: starts_with_def)

lemma starts_with_split: "starts_with p s \<Longrightarrow> s = p @ drop (length p) s"
  unfolding starts_with_def by (metis append_take_drop_id)

lemma starts_with_self: "starts_with p (p @ s)"
  by (simp add: starts_with_def)

lemma js_includes_prefix: "js_includes p xs \<Longrightarrow> js_includes p (xs @ ys)"
proof (induction xs)
  case Nil
  then show ?case by (simp add: starts_with_includes starts_with_def)
next
  case (Cons x xs)
  then show ?case
    using starts_with_append [of p "x # xs" ys] by auto
qed

lemma js_includes_Cons: "js_includes p ys \<Longrightarrow> js_includes p (x # ys)"
  by simp

lemma js_includes_join:
  "b \<in> set bs \<Longrightarrow> js_includes p b \<Longrightarrow> js_includes p (join_nl bs)"
proof (induction bs rule: join_nl.induct)
  case 1
  then show ?case by simp
next
  case (2 b')
  then show ?case by simp
next
  case (3 b' v va)
  then show ?case
    by (auto intro: js_includes_prefix js_includes_append js_includes_Cons)
qed

lemma vars_not_ws: "\<not> is_ws 118" "\<not> is_ws 45"
  by (simp_all add: is_ws_def)

lemma list_all_takeWhile: "list_all P (takeWhile P xs)"
  by (induction xs) auto

lemma dropWhile_ws_vars:
  "list_all is_ws ws \<Longrightarrow> dropWhile is_ws (ws @ str ''vars:'' @ zs) = str ''vars:'' @ zs"
  by (induction ws) (auto simp: str_simps vars_not_ws)

lemma takeWhile_ws_vars:
  "list_all is_ws ws \<Longrightarrow> takeWhile is_ws (ws @ str ''vars:'' @ zs) = ws"
  by (induction ws) (auto simp: str_simps vars_not_ws)

lemma marker_at_iff:
  "marker_at s \<longleftrightarrow>
     (\<exists>ws zs. s = 45 # ws @ str ''vars:'' @ zs \<and> ws \<noteq> [] \<and> list_all is_ws ws)"
proof
  assume m: "marker_at s"
  then obtain rest where s: "s = 45 # rest" and w: "takeWhile is_ws rest \<noteq> []"
    and v: "starts_with (str ''vars:'') (dropWhile is_ws rest)"
    by (auto simp: marker_at_def split: list.splits)
  from starts_with_split [OF v] obtain zs where "dropWhile is_ws rest = str ''vars:'' @ zs"
    by blast
  then have "rest = takeWhile is_ws rest @ str ''vars:'' @ zs"
    by (metis takeWhile_dropWhile_id)
  with s w list_all_takeWhile [of is_ws rest]
  show "\<exists>ws zs. s = 45 # ws @ str ''vars:'' @ zs \<and> ws \<noteq> [] \<and> list_all is_ws ws"
    by blast
next
  assume "\<exists>ws zs. s = 45 # ws @ str ''vars:'' @ zs \<and> ws \<noteq> [] \<and> list_all is_ws ws"
  then obtain ws zs where s: "s = 45 # ws @ str ''vars:'' @ zs" and w: "ws \<noteq> []"
    and a: "list_all is_ws ws" by blast
  show "marker_at s"
    using w by (simp add: marker_at_def s dropWhile_ws_vars [OF a] takeWhile_ws_vars [OF a]
        starts_with_self)
qed

lemma marker_includes_vars: "marker_at s \<Longrightarrow> js_includes (str ''vars:'') s"
proof -
  assume "marker_at s"
  then obtain ws zs where s: "s = 45 # ws @ str ''vars:'' @ zs"
    unfolding marker_at_iff by blast
  have "js_includes (str ''vars:'') (str ''vars:'' @ zs)"
    by (rule starts_with_includes) (rule starts_with_self)
  then have "js_includes (str ''vars:'') (ws @ str ''vars:'' @ zs)"
    by (rule js_includes_append)
  then show ?thesis
    unfolding s by (rule js_includes_Cons)
qed

lemma not_marker_ws_vars:
  "list_all is_ws ws \<Longrightarrow> \<not> marker_at (ws @ str ''vars:'' @ zs)"
  by (cases ws) (auto simp: marker_at_def str_simps vars_not_ws)

lemma split_blocks_no_cut:
  "\<not> (c = nl \<and> marker_at cs) \<Longrightarrow>
     split_blocks (c # cs) = (c # hd (split_blocks cs)) # tl (split_blocks cs)"
  using split_blocks_nonempty [of cs] by (cases "split_blocks cs") auto

lemma split_blocks_ws_vars:
  "list_all is_ws ws \<Longrightarrow>
     split_blocks (ws @ str ''vars:'' @ zs)
       = (ws @ str ''vars:'' @ hd (split_blocks zs)) # tl (split_blocks zs)"
proof (induction ws)
  case Nil
  have nn: "(118::nat) \<noteq> nl" "(97::nat) \<noteq> nl" "(114::nat) \<noteq> nl" "(115::nat) \<noteq> nl" "(58::nat) \<noteq> nl"
    by (simp_all add: nl_def)
  show ?case
    by (simp add: str_simps split_blocks_no_cut nn del: split_blocks.simps)
next
  case (Cons w ws)
  then have a: "list_all is_ws ws" by simp
  have "\<not> marker_at (ws @ str ''vars:'' @ zs)" by (rule not_marker_ws_vars [OF a])
  then show ?case
    using Cons.IH [OF a] by (simp add: split_blocks_no_cut del: split_blocks.simps)
qed

lemma marker_at_hd_split: "marker_at s \<Longrightarrow> marker_at (hd (split_blocks s))"
proof -
  assume "marker_at s"
  then obtain ws zs where s: "s = 45 # ws @ str ''vars:'' @ zs" and w: "ws \<noteq> []"
    and a: "list_all is_ws ws"
    unfolding marker_at_iff by blast
  have "(45::nat) \<noteq> nl" by (simp add: nl_def)
  then have "hd (split_blocks s) = 45 # ws @ str ''vars:'' @ hd (split_blocks zs)"
    unfolding s by (simp add: split_blocks_no_cut split_blocks_ws_vars [OF a] del: split_blocks.simps)
  with w a show ?thesis
    unfolding marker_at_iff by blast
qed

lemma later_blocks_are_records: "b \<in> set (tl (split_blocks s)) \<Longrightarrow> marker_at b"
proof (induction s)
  case Nil
  then show ?case by simp
next
  case (Cons c cs)
  show ?case
  proof (cases "c = nl \<and> marker_at cs")
    case True
    with Cons.prems have "b \<in> set (split_blocks cs)" by simp
    then have "b = hd (split_blocks cs) \<or> b \<in> set (tl (split_blocks cs))"
      using split_blocks_nonempty [of cs] by (cases "split_blocks cs") auto
    with True Cons.IH marker_at_hd_split [of cs] show ?thesis by auto
  next
    case False
    with Cons.prems have "b \<in> set (tl (split_blocks cs))"
      by (simp add: split_blocks_no_cut del: split_blocks.simps)
    then show ?thesis by (rule Cons.IH)
  qed
qed

lemma testBlocks_cases:
  "testBlocks D = (if js_includes (str ''vars:'') (hd (split_blocks D)) then split_blocks D
                   else tl (split_blocks D))"
proof -
  obtain b bs where s: "split_blocks D = b # bs"
    using split_blocks_nonempty [of D] by (cases "split_blocks D") auto
  have "filter (js_includes (str ''vars:'')) bs = bs"
    using later_blocks_are_records [of _ D] marker_includes_vars
    by (simp add: s filter_id_conv)
  then show ?thesis by (simp add: testBlocks_def s)
qed

text \<open>
  A header without the text \<open>vars:\<close>, followed by a line feed and a record marker, is
  the first chunk of the split, and the segmenter drops it: the blocks of \<open>loadYAML\<close>
  are then the chunks of the text after the header.
\<close>

lemma starts_with_before:
  assumes "starts_with p (T @ c # X)" and "c \<notin> set p"
  shows "starts_with p T"
proof (cases "length p \<le> length T")
  case True
  with assms(1) show ?thesis by (simp add: starts_with_def)
next
  case False
  define n where "n = length p"
  define Y where "Y = take (n - Suc (length T)) X"
  from False have "take n (T @ c # X) = T @ c # Y"
    by (simp add: take_Cons' n_def Y_def)
  moreover from assms(1) have "take n (T @ c # X) = p"
    unfolding starts_with_def n_def .
  ultimately have "set p = set (T @ c # Y)" by (rule_tac arg_cong [where f = set]) simp
  then have "c \<in> set p" by simp
  with assms(2) show ?thesis by simp
qed

lemma js_includes_dropWhile:
  "js_includes p (dropWhile P s) \<Longrightarrow> js_includes p s"
  using js_includes_append [of p "dropWhile P s" "takeWhile P s"] by simp

lemma no_marker_across:
  assumes "\<not> js_includes (str ''vars:'') H"
  shows "\<not> marker_at (H @ nl # 45 # r)"
proof (cases H)
  case Nil
  then show ?thesis by (simp add: marker_at_def nl_def)
next
  case (Cons c H')
  show ?thesis
  proof
    assume "marker_at (H @ nl # 45 # r)"
    with Cons have sw: "starts_with (str ''vars:'') (dropWhile is_ws (H' @ nl # 45 # r))"
      by (simp add: marker_at_def)
    show False
    proof (cases "list_all is_ws H'")
      case True
      have ws: "is_ws nl" "\<not> is_ws 45" by (simp_all add: is_ws_def nl_def)
      from True have "dropWhile is_ws (H' @ nl # 45 # r) = 45 # r"
        by (induction H') (simp_all add: ws)
      with sw show False by (simp add: starts_with_def str_simps)
    next
      case False
      then have "dropWhile is_ws (H' @ nl # 45 # r) = dropWhile is_ws H' @ nl # 45 # r"
        by (induction H') simp_all
      with sw have "starts_with (str ''vars:'') (dropWhile is_ws H' @ nl # 45 # r)" by simp
      then have "starts_with (str ''vars:'') (dropWhile is_ws H')"
        by (rule starts_with_before) (simp add: str_simps nl_def)
      then have "js_includes (str ''vars:'') (dropWhile is_ws H')"
        by (rule starts_with_includes)
      then have "js_includes (str ''vars:'') H'"
        by (rule js_includes_dropWhile)
      then have "js_includes (str ''vars:'') H"
        unfolding Cons by (rule js_includes_Cons)
      with assms show False by simp
    qed
  qed
qed

lemma split_blocks_header:
  assumes "marker_at body"
  shows "\<not> js_includes (str ''vars:'') H \<Longrightarrow> split_blocks (H @ nl # body) = H # split_blocks body"
proof (induction H)
  case Nil
  with assms show ?case by simp
next
  case (Cons c H)
  from assms obtain r where b: "body = 45 # r"
    by (auto simp: marker_at_def split: list.splits)
  from Cons.prems have n: "\<not> js_includes (str ''vars:'') H" by auto
  have "\<not> marker_at (H @ nl # body)"
    unfolding b by (rule no_marker_across [OF n])
  then have "split_blocks ((c # H) @ nl # body)
      = (c # hd (split_blocks (H @ nl # body))) # tl (split_blocks (H @ nl # body))"
    by (simp add: split_blocks_no_cut del: split_blocks.simps)
  with Cons.IH [OF n] show ?case by simp
qed

lemma testBlocks_after_header:
  assumes "\<not> js_includes (str ''vars:'') H" and "marker_at body"
  shows "testBlocks (H @ nl # body) = split_blocks body"
proof -
  from assms(2) obtain r where b: "body = 45 # r"
    by (auto simp: marker_at_def split: list.splits)
  have "\<forall>x \<in> set (split_blocks body). js_includes (str ''vars:'') x"
  proof
    fix x assume "x \<in> set (split_blocks body)"
    then have "x = hd (split_blocks body) \<or> x \<in> set (tl (split_blocks body))"
      using split_blocks_nonempty [of body] by (cases "split_blocks body") auto
    with marker_at_hd_split [OF assms(2)] later_blocks_are_records [of x body]
    have "marker_at x" by auto
    then show "js_includes (str ''vars:'') x" by (rule marker_includes_vars)
  qed
  then have "filter (js_includes (str ''vars:'')) (split_blocks body) = split_blocks body"
    by (simp add: filter_id_conv)
  with assms(1) show ?thesis
    by (simp add: testBlocks_def split_blocks_header [OF assms(2,1)])
qed


text \<open>
  C4, as amended. For every document \<open>D\<close>, with \<open>M\<close> line feeds directly followed by the
  record marker: cutting at those line feeds yields exactly \<open>M + 1\<close> chunks whose
  concatenation with line-feed separators is \<open>D\<close>. The segmenter keeps the chunks that
  contain the text \<open>vars:\<close>: every chunk after the first (each starts with a record
  marker) and the first chunk only when it contains \<open>vars:\<close>. So it yields exactly \<open>N\<close>
  blocks when \<open>D\<close> starts with a record marker, and then the blocks concatenate to \<open>D\<close>;
  it also yields \<open>N\<close> blocks when the first chunk holds no \<open>vars:\<close>, and then the blocks
  concatenate to \<open>D\<close> only together with that first chunk (the header it left out). It
  yields the empty sequence, and no error, when \<open>D\<close> holds no \<open>vars:\<close> text at all.
\<close>

theorem segmenter_blocks:
  "join_nl (split_blocks D) = D
   \<and> length (split_blocks D) = Suc (markers_after_newline D)
   \<and> testBlocks D = (if js_includes (str ''vars:'') (hd (split_blocks D)) then split_blocks D
                      else tl (split_blocks D))
   \<and> (marker_at D \<longrightarrow> length (testBlocks D) = record_markers D \<and> join_nl (testBlocks D) = D)
   \<and> (\<not> js_includes (str ''vars:'') (hd (split_blocks D)) \<longrightarrow>
         length (testBlocks D) = record_markers D
         \<and> join_nl (hd (split_blocks D) # testBlocks D) = D)
   \<and> (\<not> js_includes (str ''vars:'') D \<longrightarrow> testBlocks D = [])"
proof -
  note j = join_split_blocks [of D]
  note l = length_split_blocks [of D]
  note t = testBlocks_cases [of D]
  have ne: "split_blocks D \<noteq> []" by (rule split_blocks_nonempty)
  have hd_inc: "js_includes (str ''vars:'') (hd (split_blocks D))" if "marker_at D"
    using that by (intro marker_includes_vars marker_at_hd_split)
  have a: "length (testBlocks D) = record_markers D \<and> join_nl (testBlocks D) = D" if "marker_at D"
    using that hd_inc t j l by (simp add: record_markers_def)
  have b: "length (testBlocks D) = record_markers D
           \<and> join_nl (hd (split_blocks D) # testBlocks D) = D"
    if "\<not> js_includes (str ''vars:'') (hd (split_blocks D))"
  proof -
    from that hd_inc have "\<not> marker_at D" by blast
    with that t l j ne show ?thesis by (simp add: record_markers_def)
  qed
  have c: "testBlocks D = []" if n: "\<not> js_includes (str ''vars:'') D"
  proof (rule ccontr)
    assume "testBlocks D \<noteq> []"
    then obtain x where "x \<in> set (testBlocks D)"
      by (cases "testBlocks D") auto
    then have "x \<in> set (split_blocks D)" and "js_includes (str ''vars:'') x"
      by (auto simp: testBlocks_def)
    from js_includes_join [OF this] j n show False by simp
  qed
  from j l t a b c show ?thesis by blast
qed

lemma segment_eval:
  "nl = 10" "is_ws 32" "\<not> is_ws 118" "\<not> is_ws 45" "\<not> is_ws 116" "\<not> is_ws 120" "\<not> is_ws 58"
  by (simp_all add: nl_def is_ws_def)

theorem segmenter_blocks_witness:
  "testBlocks (str ''- vars:\<newline>  a: 1\<newline>- vars:\<newline>  b: 2'')
     = [str ''- vars:\<newline>  a: 1'', str ''- vars:\<newline>  b: 2'']
   \<and> record_markers (str ''- vars:\<newline>  a: 1\<newline>- vars:\<newline>  b: 2'') = 2
   \<and> testBlocks (str ''title: x'') = []"
proof -
  have m: "marker_at (str ''- vars:\<newline>  a: 1\<newline>- vars:\<newline>  b: 2'')"
    by (simp add: marker_at_def str_simps segment_eval starts_with_def)
  have s: "split_blocks (str ''- vars:\<newline>  a: 1\<newline>- vars:\<newline>  b: 2'')
     = [str ''- vars:\<newline>  a: 1'', str ''- vars:\<newline>  b: 2'']"
    by (simp add: marker_at_def str_simps segment_eval starts_with_def)
  have i: "js_includes (str ''vars:'') (str ''- vars:\<newline>  a: 1'')"
    by (simp add: str_simps starts_with_def)
  have n: "\<not> js_includes (str ''vars:'') (str ''title: x'')"
    by (simp add: str_simps starts_with_def)
  let ?D = "str ''- vars:\<newline>  a: 1\<newline>- vars:\<newline>  b: 2''"
  from segmenter_blocks [of ?D] m
  have len: "length (testBlocks ?D) = record_markers ?D" by blast
  from segmenter_blocks [of ?D] s i
  have blocks: "testBlocks ?D = [str ''- vars:\<newline>  a: 1'', str ''- vars:\<newline>  b: 2'']"
    by simp
  from len blocks have count: "record_markers ?D = 2" by simp
  from segmenter_blocks [of "str ''title: x''"] n
  have "testBlocks (str ''title: x'') = []" by blast
  with blocks count show ?thesis by simp
qed

theorem header_dropped_counterexample:
  "record_markers (str ''tests:\<newline>- vars:'') = 1
   \<and> testBlocks (str ''tests:\<newline>- vars:'') = [str ''- vars:'']
   \<and> join_nl (testBlocks (str ''tests:\<newline>- vars:'')) \<noteq> str ''tests:\<newline>- vars:''
   \<and> record_markers (str ''vars: x'') = 0
   \<and> testBlocks (str ''vars: x'') = [str ''vars: x'']"
  by (simp add: record_markers_def testBlocks_def marker_at_def str_simps segment_eval
      starts_with_def)

section \<open>Properties of the patcher\<close>

lemma tests_nl_length: "length (str ''tests:\<newline>'') = 7" "length (str ''tests:'') = 6"
  by (simp_all add: str_def)

lemma str_tests_nl: "str ''tests:\<newline>'' = str ''tests:'' @ [nl]"
  by (simp add: str_simps nl_def)

lemma starts_with_rest: "starts_with p s \<Longrightarrow> \<exists>r. s = p @ r \<and> drop (length p) s = r"
  using starts_with_split [of p s] by (metis append_eq_conv_conj)

lemma find_tests_Some:
  "find_tests D = Some (h, b) \<Longrightarrow> D = h @ str ''tests:\<newline>'' @ b"
proof (induction D arbitrary: h)
  case Nil
  then show ?case by simp
next
  case (Cons c cs)
  show ?case
  proof (cases "c = nl \<and> starts_with (str ''tests:\<newline>'') cs")
    case True
    with Cons.prems have hb: "h = [c]" "b = drop 7 cs" by auto
    from True starts_with_rest [of "str ''tests:\<newline>''" cs]
    obtain r where "cs = str ''tests:\<newline>'' @ r" and "drop 7 cs = r"
      by (auto simp: tests_nl_length)
    with hb show ?thesis by simp
  next
    case False
    with Cons.prems obtain h' where "find_tests cs = Some (h', b)" and "h = c # h'"
      by auto
    with Cons.IH show ?thesis by simp
  qed
qed

lemma find_tests_header: "find_tests D = Some (h, b) \<Longrightarrow> h \<noteq> [] \<and> last h = nl"
proof (induction D arbitrary: h)
  case Nil
  then show ?case by simp
next
  case (Cons c cs)
  show ?case
  proof (cases "c = nl \<and> starts_with (str ''tests:\<newline>'') cs")
    case True
    with Cons.prems show ?thesis by auto
  next
    case False
    with Cons.prems obtain h' where "find_tests cs = Some (h', b)" and "h = c # h'"
      by auto
    with Cons.IH [of h'] show ?thesis by simp
  qed
qed


lemma find_tests_has_line: "find_tests D = Some x \<Longrightarrow> has_tests_line D"
proof (induction D arbitrary: x)
  case Nil
  then show ?case by simp
next
  case (Cons c cs)
  show ?case
  proof (cases "c = nl \<and> starts_with (str ''tests:\<newline>'') cs")
    case True
    then obtain r where cs: "cs = str ''tests:'' @ nl # r"
      using starts_with_rest [of "str ''tests:\<newline>''" cs]
      by (auto simp: str_tests_nl)
    have "starts_with (str ''tests:'') cs \<and> hd (drop 6 cs) = nl"
      unfolding cs by (simp add: starts_with_self tests_nl_length)
    with True show ?thesis by simp
  next
    case False
    with Cons show ?thesis by (auto split: option.splits)
  qed
qed

lemma has_tests_line_iff:
  "has_tests_line D \<longleftrightarrow>
     (\<exists>pre post. D = pre @ nl # str ''tests:'' @ post \<and> (post = [] \<or> hd post = nl))"
proof (induction D)
  case Nil
  then show ?case by simp
next
  case (Cons c cs)
  let ?here = "c = nl \<and> starts_with (str ''tests:'') cs \<and> (drop 6 cs = [] \<or> hd (drop 6 cs) = nl)"
  let ?R = "\<lambda>D. \<exists>pre post. D = pre @ nl # str ''tests:'' @ post \<and> (post = [] \<or> hd post = nl)"
  have "?R (c # cs) \<longleftrightarrow> ?here \<or> ?R cs"
  proof
    assume "?R (c # cs)"
    then obtain pre post where d: "c # cs = pre @ nl # str ''tests:'' @ post"
      and p: "post = [] \<or> hd post = nl" by blast
    show "?here \<or> ?R cs"
    proof (cases pre)
      case Nil
      with d have "c = nl" and cs: "cs = str ''tests:'' @ post" by auto
      with p show ?thesis by (simp add: starts_with_self tests_nl_length)
    next
      case (Cons a pre')
      with d have "cs = pre' @ nl # str ''tests:'' @ post" by simp
      with p show ?thesis by blast
    qed
  next
    assume "?here \<or> ?R cs"
    then show "?R (c # cs)"
    proof
      assume h: ?here
      then obtain r where "cs = str ''tests:'' @ r" and "drop 6 cs = r"
        using starts_with_rest [of "str ''tests:''" cs] by (auto simp: tests_nl_length)
      with h have "c # cs = [] @ nl # str ''tests:'' @ r" and "r = [] \<or> hd r = nl"
        by (simp_all add: tests_nl_length)
      then show ?thesis by blast
    next
      assume "?R cs"
      then obtain pre post where "cs = pre @ nl # str ''tests:'' @ post"
        and p: "post = [] \<or> hd post = nl" by blast
      then have "c # cs = (c # pre) @ nl # str ''tests:'' @ post" by simp
      with p show ?thesis by blast
    qed
  qed
  with Cons show ?case by simp
qed

lemma patch_all_untargeted:
  "\<forall>f \<in> set fs. byIndex (int (testIndex f)) = None \<Longrightarrow> patch_all byIndex fs blocks = Inr blocks"
  by (induction fs) (auto simp: patch_failure_def and_then_def)

lemma patch_all_append:
  "patch_all byIndex (xs @ ys) blocks
     = and_then (patch_all byIndex xs blocks) (patch_all byIndex ys)"
  by (induction xs arbitrary: blocks) (auto simp: and_then_def split: sum.splits)


lemma refinements_into_lookup:
  "refinements_into m rs j
     = (case filter (\<lambda>r. ref_testIndex r = j) rs of
          [] \<Rightarrow> m j
        | x # xs \<Rightarrow> Some (refinedAssertion (last (x # xs))))"
proof (induction rs arbitrary: m)
  case Nil
  then show ?case by simp
next
  case (Cons r rs)
  show ?case
    by (simp add: Cons.IH split: list.splits)
qed

lemma refinementsByIndex_single_target:
  assumes "\<forall>r \<in> set rs. ref_testIndex r = k" and "rs \<noteq> []"
  shows "refinementsByIndex rs k = Some (refinedAssertion (last rs))"
    and "j \<noteq> k \<Longrightarrow> refinementsByIndex rs j = None"
proof -
  from assms(1) have all: "filter (\<lambda>r. ref_testIndex r = k) rs = rs"
    by (simp add: filter_id_conv)
  with assms(2) show "refinementsByIndex rs k = Some (refinedAssertion (last rs))"
    by (cases rs) (simp_all add: refinementsByIndex_def refinements_into_lookup del: refinements_into.simps)
  assume "j \<noteq> k"
  with assms(1) have "filter (\<lambda>r. ref_testIndex r = j) rs = []"
    by (auto simp: filter_empty_conv)
  then show "refinementsByIndex rs j = None"
    by (simp add: refinementsByIndex_def refinements_into_lookup del: refinements_into.simps)
qed

lemma split_lines_nonempty: "split_lines s \<noteq> []"
  by (induction s) (auto split: list.splits)

lemma join_split_lines: "join_nl (split_lines s) = s"
proof (induction s)
  case Nil
  then show ?case by simp
next
  case (Cons c cs)
  obtain l ls where s: "split_lines cs = l # ls"
    using split_lines_nonempty [of cs] by (cases "split_lines cs") auto
  with Cons show ?case
    by (cases ls) auto
qed

lemma value_match_parts: "value_match l = Some (m1, m2) \<Longrightarrow> l = m1 @ m2"
proof -
  assume a: "value_match l = Some (m1, m2)"
  define ws1 where "ws1 = takeWhile is_ws l"
  define r1 where "r1 = dropWhile is_ws l"
  define ws2 where "ws2 = takeWhile is_ws (drop 6 r1)"
  define rest where "rest = dropWhile is_ws (drop 6 r1)"
  have m: "(if starts_with (str ''value:'') r1
         then if rest \<noteq> []
              then (if list_all (\<lambda>c. \<not> is_line_terminator c) rest
                    then Some (ws1 @ str ''value:'' @ ws2, rest) else None)
              else (if ws2 \<noteq> [] \<and> \<not> is_line_terminator (last ws2)
                    then Some (ws1 @ str ''value:'' @ butlast ws2, [last ws2]) else None)
         else None) = Some (m1, m2)"
    using a unfolding value_match_def Let_def ws1_def r1_def ws2_def rest_def .
  then have sw: "starts_with (str ''value:'') r1"
    by (simp split: if_splits)
  have len: "length (str ''value:'') = 6" by (simp add: str_def)
  have d: "drop 6 r1 = ws2 @ rest" by (simp add: ws2_def rest_def)
  have "r1 = str ''value:'' @ (ws2 @ rest)"
    using starts_with_rest [OF sw] d by (auto simp: len)
  moreover have "l = ws1 @ r1" by (simp add: ws1_def r1_def)
  ultimately have whole: "l = ws1 @ str ''value:'' @ ws2 @ rest" by simp
  show ?thesis
  proof (cases "rest = []")
    case False
    with m sw have "m1 = ws1 @ str ''value:'' @ ws2" and "m2 = rest"
      by (simp_all split: if_splits)
    with whole show ?thesis by simp
  next
    case True
    with m sw have "ws2 \<noteq> []" and "m1 = ws1 @ str ''value:'' @ butlast ws2"
      and "m2 = [last ws2]"
      by (simp_all split: if_splits)
    with whole True show ?thesis by simp
  qed
qed

lemma patch_lines_first_match:
  assumes "\<forall>l' \<in> set pre. \<not> line_matches failNorm l'"
    and "value_match l = Some (m1, m2)"
    and "norm_str (unescapeYamlValue (trim m2)) = failNorm"
  shows "patch_lines failNorm refined (pre @ l # post) = pre @ (m1 @ escapeForYaml refined) # post"
  using assms(1)
proof (induction pre)
  case Nil
  from assms(2,3) show ?case by simp
next
  case (Cons a pre)
  then show ?case
    by (auto simp: line_matches_def split: option.splits)
qed

lemma patch_lines_no_match:
  "\<forall>l' \<in> set ls. \<not> line_matches failNorm l' \<Longrightarrow> patch_lines failNorm refined ls = ls"
  by (induction ls) (auto simp: line_matches_def split: option.splits)

lemma join_nl_middle:
  "join_nl (xs @ y # ys)
     = (if xs = [] then [] else join_nl xs @ [nl]) @ y @ (if ys = [] then [] else nl # join_nl ys)"
proof (induction xs)
  case Nil
  then show ?case by (cases ys) simp_all
next
  case (Cons x xs)
  then show ?case by (cases xs) (simp_all add: join_nl_Cons)
qed


lemma patch_failure_target:
  assumes "byIndex (int (Suc (length bpre))) = Some refined" and "refined \<noteq> []"
    and "testIndex f = Suc (length bpre)"
    and "norm_json (failingAssertion f) = Inr failNorm"
  shows "patch_failure byIndex f (bpre @ b # bpost)
           = Inr (bpre @ join_nl (patch_lines failNorm refined (split_lines b)) # bpost)"
  using assms by (simp add: patch_failure_def and_then_def)

lemma patch_all_single:
  assumes "f \<in> set failures" and "distinct (map testIndex failures)"
    and "\<forall>j. j \<noteq> int (testIndex f) \<longrightarrow> byIndex j = None"
  shows "patch_all byIndex failures blocks = patch_failure byIndex f blocks"
proof -
  from assms(1) obtain xs ys where fs: "failures = xs @ f # ys"
    by (auto simp: in_set_conv_decomp)
  with assms(2) have "\<forall>g \<in> set xs. testIndex g \<noteq> testIndex f"
    and "\<forall>g \<in> set ys. testIndex g \<noteq> testIndex f" by (auto simp: image_iff)
  with assms(3) have xs: "\<forall>g \<in> set xs. byIndex (int (testIndex g)) = None"
    and ys: "\<forall>g \<in> set ys. byIndex (int (testIndex g)) = None" by auto
  have "patch_all byIndex (f # ys) blocks = patch_failure byIndex f blocks"
    using patch_all_untargeted [OF ys]
    by (cases "patch_failure byIndex f blocks") (simp_all add: and_then_def)
  then show ?thesis
    using patch_all_untargeted [OF xs, of blocks]
    by (simp add: fs patch_all_append and_then_def del: patch_all.simps)
qed

lemmas text_eval =
  str_simps nl_def is_ws_def is_line_terminator_def is_quote_def starts_with_def marker_at_def
  value_match_def line_matches_def norm_str_def norm_json_def trim_def unescapeYamlValue_def
  strip_quotes_def escapeForYaml_def js_or_def Let_def




text \<open>
  C10. For every document without a line that consists of \<open>tests:\<close> and comes after a
  line feed, \<open>patchYaml\<close> throws its error (\<open>Could not find "tests:" section in YAML\<close>)
  whatever the failures and refinements are, and the files are left as they were:
  nothing is patched and nothing is written.
\<close>

theorem patcher_requires_tests_line:
  assumes "files yamlPath = Some D" and "\<not> has_tests_line D"
  shows "patchYaml files yamlPath failures refinements outputPath = (Some NoTestsSection, files)"
proof -
  from assms(2) find_tests_has_line [of D] have "find_tests D = None"
    by (cases "find_tests D") auto
  with assms(1) show ?thesis
    by (simp add: patchYaml_def patched_text_def)
qed

theorem patcher_requires_tests_line_witness:
  "patchYaml [str ''t.yaml'' \<mapsto> str ''tests:\<newline>- vars:\<newline>  value: a'']
     (str ''t.yaml'')
     [\<lparr>testIndex = 1, inputSnippet = [], outputSnippet = [],
       failingAssertion = JStr (str ''a''), reason = JStr []\<rparr>]
     [\<lparr>ref_testIndex = 1, refinedAssertion = str ''b''\<rparr>]
     (str ''o.yaml'')
   = (Some NoTestsSection, [str ''t.yaml'' \<mapsto> str ''tests:\<newline>- vars:\<newline>  value: a''])"
proof -
  have 1: "[str ''t.yaml'' \<mapsto> str ''tests:\<newline>- vars:\<newline>  value: a''] (str ''t.yaml'')
             = Some (str ''tests:\<newline>- vars:\<newline>  value: a'')"
    by simp
  have 2: "\<not> has_tests_line (str ''tests:\<newline>- vars:\<newline>  value: a'')"
    by (simp add: str_simps nl_def starts_with_def)
  show ?thesis
    by (rule patcher_requires_tests_line
          [where files = "[str ''t.yaml'' \<mapsto> str ''tests:\<newline>- vars:\<newline>  value: a'']"
             and yamlPath = "str ''t.yaml''", OF 1 2])
qed

text \<open>
  What \<open>patchYaml\<close> does, in terms of the chunks \<open>body.split(/\n(?=-\s+vars:)/)\<close> of the
  text after the \<open>tests:\<close> line, which it numbers from 1. Take failure records with
  pairwise distinct ordinals, one of them \<open>f\<close> with ordinal \<open>k\<close>, and refinements that all
  target \<open>k\<close>, the last of them with a non-empty text. If \<open>l\<close> is the first line of chunk
  \<open>k\<close> that is a value line whose value, normalised, equals the normalised failing
  assertion of \<open>f\<close>, with key prefix \<open>m1\<close> and value portion \<open>m2\<close>, then the text written
  is the document with \<open>m2\<close> replaced by the quoted refinement: the header, every other
  chunk, every other line of chunk \<open>k\<close> and the key prefix of \<open>l\<close> are the same code units
  as in the input.
\<close>

lemma patch_first_matching_line:
  assumes src: "files yamlPath = Some D"
    and tests: "find_tests D = Some (h, body)"
    and blocks: "split_blocks body = bpre @ b # bpost"
    and lines: "split_lines b = pre @ l # post"
    and vm: "value_match l = Some (m1, m2)"
    and fn: "norm_json (failingAssertion f) = Inr failNorm"
    and eq: "norm_str (unescapeYamlValue (trim m2)) = failNorm"
    and first: "\<forall>l' \<in> set pre. \<not> line_matches failNorm l'"
    and f: "f \<in> set failures" "testIndex f = Suc (length bpre)"
    and dist: "distinct (map testIndex failures)"
    and refs: "refinements \<noteq> []" "\<forall>r \<in> set refinements. ref_testIndex r = int (Suc (length bpre))"
    and refined: "refinedAssertion (last refinements) = refined" "refined \<noteq> []"
  shows "D = h @ str ''tests:\<newline>''
               @ join_nl (bpre @ join_nl (pre @ (m1 @ m2) # post) # bpost)
       \<and> patchYaml files yamlPath failures refinements outputPath
           = (None, files(outputPath \<mapsto> h @ str ''tests:\<newline>''
               @ join_nl (bpre @ join_nl (pre @ (m1 @ escapeForYaml refined) # post) # bpost)))
       \<and> (\<exists>X Y. D = X @ m2 @ Y
             \<and> patchYaml files yamlPath failures refinements outputPath
                 = (None, files(outputPath \<mapsto> X @ escapeForYaml refined @ Y)))"
proof -
  let ?by = "refinementsByIndex refinements"
  let ?doc = "\<lambda>z. h @ str ''tests:\<newline>''
               @ join_nl (bpre @ join_nl (pre @ (m1 @ z) # post) # bpost)"
  from refinementsByIndex_single_target [OF refs(2,1)] refined(1)
  have look: "?by (int (Suc (length bpre))) = Some refined"
    and others: "\<forall>j. j \<noteq> int (testIndex f) \<longrightarrow> ?by j = None"
    by (simp_all add: f(2))
  have "l = m1 @ m2" by (rule value_match_parts [OF vm])
  with lines have "b = join_nl (pre @ (m1 @ m2) # post)"
    using join_split_lines [of b] by simp
  with blocks have "body = join_nl (bpre @ join_nl (pre @ (m1 @ m2) # post) # bpost)"
    using join_split_blocks [of body] by simp
  with find_tests_Some [OF tests] have D: "D = ?doc m2" by simp
  have "patch_all ?by failures (split_blocks body) = patch_failure ?by f (split_blocks body)"
    by (rule patch_all_single [OF f(1) dist others])
  also have "\<dots> = Inr (bpre @ join_nl (patch_lines failNorm refined (split_lines b)) # bpost)"
    unfolding blocks
    by (rule patch_failure_target [where bpre = bpre and refined = refined and failNorm = failNorm])
       (use look refined(2) f(2) fn in auto)
  also have "patch_lines failNorm refined (split_lines b) = pre @ (m1 @ escapeForYaml refined) # post"
    unfolding lines by (rule patch_lines_first_match [OF first vm eq])
  finally have "patched_text D failures refinements = Inr (?doc (escapeForYaml refined))"
    using tests by (simp add: patched_text_def and_then_def)
  with src have out: "patchYaml files yamlPath failures refinements outputPath
      = (None, files(outputPath \<mapsto> ?doc (escapeForYaml refined)))"
    by (simp add: patchYaml_def)
  define X where "X = h @ str ''tests:\<newline>'' @ (if bpre = [] then [] else join_nl bpre @ [nl])
                        @ (if pre = [] then [] else join_nl pre @ [nl]) @ m1"
  define Y where "Y = (if post = [] then [] else nl # join_nl post)
                        @ (if bpost = [] then [] else nl # join_nl bpost)"
  have "?doc z = X @ z @ Y" for z
    by (simp add: join_nl_middle X_def Y_def)
  with D out have "D = X @ m2 @ Y
      \<and> patchYaml files yamlPath failures refinements outputPath
          = (None, files(outputPath \<mapsto> X @ escapeForYaml refined @ Y))"
    by simp
  with D out show ?thesis by blast
qed

text \<open>
  When the \<open>tests:\<close> line is directly followed by the first record marker and nothing up
  to that line contains the text \<open>vars:\<close>, the chunks that \<open>patchYaml\<close> numbers are the
  blocks of the segmenter of \<open>loadYAML\<close>, and the patch is local to the block \<open>Bk\<close> of
  the segmenter.
\<close>

lemma testBlocks_body:
  assumes "find_tests D = Some (h, body)" and "marker_at body"
    and "\<not> js_includes (str ''vars:'') (h @ str ''tests:'')"
  shows "testBlocks D = split_blocks body"
proof -
  from find_tests_Some [OF assms(1)]
  have "D = (h @ str ''tests:'') @ nl # body" by (simp add: str_tests_nl)
  then show ?thesis
    using testBlocks_after_header [OF assms(3,2)] by simp
qed

lemma patch_local_when_aligned:
  assumes "files yamlPath = Some D"
    and "find_tests D = Some (h, body)"
    and "marker_at body" and "\<not> js_includes (str ''vars:'') (h @ str ''tests:'')"
    and "testBlocks D = bpre @ b # bpost"
    and "split_lines b = pre @ l # post"
    and "value_match l = Some (m1, m2)"
    and "norm_json (failingAssertion f) = Inr failNorm"
    and "norm_str (unescapeYamlValue (trim m2)) = failNorm"
    and "\<forall>l' \<in> set pre. \<not> line_matches failNorm l'"
    and "f \<in> set failures" "testIndex f = Suc (length bpre)"
    and "distinct (map testIndex failures)"
    and "refinements \<noteq> []" "\<forall>r \<in> set refinements. ref_testIndex r = int (Suc (length bpre))"
    and "refinedAssertion (last refinements) = refined" "refined \<noteq> []"
  shows "\<exists>X Y. D = X @ m2 @ Y
           \<and> patchYaml files yamlPath failures refinements outputPath
               = (None, files(outputPath \<mapsto> X @ escapeForYaml refined @ Y))"
proof -
  from testBlocks_body [OF assms(2,3,4)] assms(5)
  have "split_blocks body = bpre @ b # bpost" by simp
  from patch_first_matching_line
    [where files = files and yamlPath = yamlPath, OF assms(1,2) this assms(6-17)]
  show ?thesis by blast
qed

text \<open>
  C1 is not what \<open>patchYaml\<close> does. The document below has an empty line between the
  \<open>tests:\<close> line and the first record. The segmenter of \<open>loadYAML\<close> yields its two
  records as blocks \<open>B1\<close> and \<open>B2\<close>, so that the second result entry belongs to \<open>B2\<close>;
  the failure record and the refinement are those of ordinal 2, and \<open>B2\<close> has a value
  line that matches the failing assertion. \<open>patchYaml\<close> splits the text after \<open>tests:\<close>
  and, unlike \<open>loadYAML\<close>, keeps the chunks without \<open>vars:\<close>: the empty chunk before
  the first marker is its block 1 and \<open>B1\<close> its block 2. The text written has the value
  line of \<open>B1\<close> rewritten and \<open>B2\<close> as it was, where the claim has every code unit of
  \<open>B1\<close> unchanged and the change within the matched line of \<open>B2\<close>.
\<close>

theorem blank_line_shifts_patched_block:
  "testBlocks (str ''x\<newline>tests:\<newline>\<newline>- vars: 1\<newline>  value: a\<newline>- vars: 2\<newline>  value: a'')
     = [str ''- vars: 1\<newline>  value: a'', str ''- vars: 2\<newline>  value: a'']
   \<and> patchYaml
         [str ''t.yaml'' \<mapsto> str ''x\<newline>tests:\<newline>\<newline>- vars: 1\<newline>  value: a\<newline>- vars: 2\<newline>  value: a'']
         (str ''t.yaml'')
         [\<lparr>testIndex = 2, inputSnippet = [], outputSnippet = [],
           failingAssertion = JStr (str ''a''), reason = JStr []\<rparr>]
         [\<lparr>ref_testIndex = 2, refinedAssertion = str ''b''\<rparr>]
         (str ''o.yaml'')
       = (None,
          [str ''t.yaml'' \<mapsto> str ''x\<newline>tests:\<newline>\<newline>- vars: 1\<newline>  value: a\<newline>- vars: 2\<newline>  value: a'',
           str ''o.yaml'' \<mapsto> str ''x\<newline>tests:\<newline>\<newline>- vars: 1\<newline>  value: '' @ [39] @ str ''b'' @ [39]
                                 @ str ''\<newline>- vars: 2\<newline>  value: a''])"
  by (simp add: testBlocks_def patchYaml_def patched_text_def patch_failure_def and_then_def
      refinementsByIndex_def text_eval)
end
